theory Spec2Isabelle
  imports Complex_Main "HOL-Library.Sublist"
begin

section \<open>The image cache of JaguarFluxAPI.js\<close>

text \<open>
  The class \<^verbatim>\<open>ImageCache\<close> keeps a JavaScript \<^verbatim>\<open>Map\<close> from keys to entries
  \<^verbatim>\<open>{ value, timestamp, accessCount }\<close>. A \<^verbatim>\<open>Map\<close> remembers the order in which its
  keys were first inserted, and \<^verbatim>\<open>cleanup\<close> depends on that order (it sorts
  \<^verbatim>\<open>Array.from(this.cache.entries())\<close> with a stable sort), so the map is an association
  list in insertion order. \<^verbatim>\<open>Date.now()\<close> is a parameter \<open>now\<close> of every operation that
  reads the clock; it and the time-to-live are integers (milliseconds). The constructor
  keeps whatever number it is given as \<^verbatim>\<open>maxSize\<close> (the declared type is \<^verbatim>\<open>number\<close>), and
  \<^verbatim>\<open>cleanup\<close> behaves differently for a maximum that is not an integer, so \<open>maxSize\<close> is a
  rational number: every finite JavaScript number is one.
\<close>

record 'v CacheEntry =
  entry_value :: 'v
  timestamp :: int
  accessCount :: int

text \<open>
  \<^verbatim>\<open>Map.prototype.set\<close>: an existing key keeps its position and gets the new value, a new
  key goes to the end. \<^verbatim>\<open>Map.prototype.delete\<close> removes the key;
  \<^verbatim>\<open>Map.prototype.get\<close> is \<^const>\<open>map_of\<close>.
\<close>

primrec Map_set :: "'k \<Rightarrow> 'e \<Rightarrow> ('k \<times> 'e) list \<Rightarrow> ('k \<times> 'e) list" where
  "Map_set k e [] = [(k, e)]"
| "Map_set k e (p # ps) = (if fst p = k then (k, e) # ps else p # Map_set k e ps)"

definition Map_delete :: "'k \<Rightarrow> ('k \<times> 'e) list \<Rightarrow> ('k \<times> 'e) list" where
  "Map_delete k ps = filter (\<lambda>p. fst p \<noteq> k) ps"

record CacheOptions =
  opt_maxSize :: "rat option"
  opt_ttl :: "int option"

record ('k, 'v) ImageCache =
  maxSize :: rat
  ttl :: int
  cache :: "('k \<times> 'v CacheEntry) list"

text \<open>
  \<^verbatim>\<open>options.maxSize || 100\<close>: the right operand is taken when the left one is falsy, that
  is when the option is missing (\<open>None\<close>) or is the number 0.
\<close>

definition or_default :: "'a::zero option \<Rightarrow> 'a \<Rightarrow> 'a" where
  "or_default x d = (case x of None \<Rightarrow> d | Some n \<Rightarrow> if n = 0 then d else n)"

definition ImageCache_new :: "CacheOptions \<Rightarrow> ('k, 'v) ImageCache" where
  "ImageCache_new options =
     \<lparr> maxSize = or_default (opt_maxSize options) 100,
       ttl = or_default (opt_ttl options) 3600000,
       cache = [] \<rparr>"

text \<open>
  \<^verbatim>\<open>cleanup\<close>: nothing happens while the size is within \<^verbatim>\<open>maxSize\<close>. Otherwise the entries
  are sorted by timestamp (\<^verbatim>\<open>Array.prototype.sort\<close> is stable, as \<^const>\<open>sort_key\<close> is),
  \<^verbatim>\<open>slice(0, size - maxSize)\<close> takes the first ones: the end, which is positive here, is
  truncated to an integer, and an end beyond the length is clamped. Then each of their
  keys is deleted from the map.
\<close>

definition ImageCache_cleanup :: "('k, 'v) ImageCache \<Rightarrow> ('k, 'v) ImageCache" where
  "ImageCache_cleanup c =
     (if of_nat (length (cache c)) \<le> maxSize c then c
      else
        let entries = sort_key (\<lambda>p. timestamp (snd p)) (cache c);
            toRemove = take (nat \<lfloor>of_nat (length (cache c)) - maxSize c\<rfloor>) entries
        in c\<lparr>cache := fold (\<lambda>p m. Map_delete (fst p) m) toRemove (cache c)\<rparr>)"

definition ImageCache_set :: "('k, 'v) ImageCache \<Rightarrow> 'k \<Rightarrow> 'v \<Rightarrow> int \<Rightarrow> ('k, 'v) ImageCache" where
  "ImageCache_set c key v now =
     (let entry = \<lparr> entry_value = v, timestamp = now, accessCount = 1 \<rparr>
      in ImageCache_cleanup (c\<lparr>cache := Map_set key entry (cache c)\<rparr>))"

text \<open>
  \<^verbatim>\<open>get\<close> returns the value or \<^verbatim>\<open>null\<close> (\<open>None\<close>), together with the cache after the call:
  an expired entry is deleted, a live one has its access counter incremented in place.
\<close>

definition ImageCache_get :: "('k, 'v) ImageCache \<Rightarrow> 'k \<Rightarrow> int \<Rightarrow> 'v option \<times> ('k, 'v) ImageCache" where
  "ImageCache_get c key now =
     (case map_of (cache c) key of
        None \<Rightarrow> (None, c)
      | Some entry \<Rightarrow>
          if now - timestamp entry > ttl c
          then (None, c\<lparr>cache := Map_delete key (cache c)\<rparr>)
          else (Some (entry_value entry),
                c\<lparr>cache := Map_set key (entry\<lparr>accessCount := accessCount entry + 1\<rparr>) (cache c)\<rparr>))"

text \<open>
  The invariant of the cache at clock reading \<open>now\<close>: the keys of the map are distinct (it
  is a map), the size is within \<open>maxSize\<close> rounded up to an integer, and no entry is stamped
  later than \<open>now\<close>.
\<close>

definition cache_inv :: "('k, 'v) ImageCache \<Rightarrow> int \<Rightarrow> bool" where
  "cache_inv c now \<longleftrightarrow>
     distinct (map fst (cache c)) \<and> int (length (cache c)) \<le> \<lceil>maxSize c\<rceil> \<and>
     (\<forall>p\<in>set (cache c). timestamp (snd p) \<le> now)"

text \<open>
  \<open>precedes xs p q\<close>: an occurrence of the entry \<open>p\<close> stands before an occurrence of the
  entry \<open>q\<close> in the list \<open>xs\<close>.
\<close>

fun precedes :: "'a list \<Rightarrow> 'a \<Rightarrow> 'a \<Rightarrow> bool" where
  "precedes [] p q \<longleftrightarrow> False"
| "precedes (x # xs) p q \<longleftrightarrow> (x = p \<and> q \<in> set xs) \<or> precedes xs p q"

text \<open>The number of entries that \<^verbatim>\<open>cleanup\<close> takes from the sorted entries on overflow.\<close>

definition excess :: "('k, 'v) ImageCache \<Rightarrow> nat" where
  "excess c = nat \<lfloor>of_nat (length (cache c)) - maxSize c\<rfloor>"

section \<open>The request queue of JaguarFluxAPI.js\<close>

text \<open>
  A queued request is the object \<^verbatim>\<open>{ requestFunction, resolve, reject }\<close> that
  \<^verbatim>\<open>add\<close> pushes. The callbacks \<^verbatim>\<open>resolve\<close> and \<^verbatim>\<open>reject\<close> belong to the promise that
  this very call of \<^verbatim>\<open>add\<close> returns; the model names that promise by \<open>ident\<close> and logs
  every call of the two callbacks in \<open>settled\<close>. What \<^verbatim>\<open>requestFunction()\<close> does when
  \<^verbatim>\<open>process\<close> calls it is either to throw at once (the \<^verbatim>\<open>catch\<close> branch runs without any
  suspension), or to return a promise or value on which \<^verbatim>\<open>await\<close> suspends.
  A \<^verbatim>\<open>requestFunction\<close> does not call the queue itself while it is being started.
\<close>

datatype invocation = Throws string | Suspends

datatype settlement = Resolved string | Rejected string

record QueuedRequest =
  ident :: nat
  requestFunction :: invocation

text \<open>
  The fields of the class are \<open>maxConcurrent\<close>, \<open>running\<close> and \<open>queue\<close>. The constructor
  keeps whatever number it is given (the declared type is \<^verbatim>\<open>number\<close>), so \<open>maxConcurrent\<close> is
  a rational number: every finite JavaScript number is one, and the only use of the field
  is the comparison with the integer counter \<open>running\<close>. The other
  fields record what the JavaScript run time holds or what an observer sees:
  \<open>awaiting\<close> are the calls of \<^verbatim>\<open>process\<close> suspended at their \<^verbatim>\<open>await\<close>, \<open>started\<close> lists
  the requests in the order in which their \<^verbatim>\<open>requestFunction\<close> was called, \<open>settled\<close>
  lists the calls of \<^verbatim>\<open>resolve\<close> and \<^verbatim>\<open>reject\<close>, and \<open>running_log\<close> lists every value
  written to \<open>running\<close>.
\<close>

record RequestQueue =
  maxConcurrent :: rat
  running :: int
  queue :: "QueuedRequest list"
  awaiting :: "nat list"
  started :: "nat list"
  settled :: "(nat \<times> settlement) list"
  running_log :: "int list"

text \<open>\<^verbatim>\<open>constructor(maxConcurrent = 3)\<close>: the default applies when the argument is missing.\<close>

definition RequestQueue_new :: "rat option \<Rightarrow> RequestQueue" where
  "RequestQueue_new arg =
     \<lparr> maxConcurrent = (case arg of None \<Rightarrow> 3 | Some n \<Rightarrow> n),
       running = 0, queue = [], awaiting = [], started = [], settled = [],
       running_log = [] \<rparr>"

text \<open>
  \<^verbatim>\<open>process\<close> up to its \<^verbatim>\<open>await\<close>. When \<^verbatim>\<open>requestFunction()\<close> throws, the \<^verbatim>\<open>catch\<close> and
  \<^verbatim>\<open>finally\<close> blocks run in the same turn, and \<^verbatim>\<open>finally\<close> calls \<^verbatim>\<open>process\<close> again.
\<close>

function RequestQueue_process :: "RequestQueue \<Rightarrow> RequestQueue" where
  "RequestQueue_process q =
     (if of_int (running q) \<ge> maxConcurrent q \<or> queue q = [] then q
      else
        let q1 = q\<lparr>running := running q + 1, running_log := running_log q @ [running q + 1]\<rparr>;
            r = hd (queue q1);
            q2 = q1\<lparr>queue := tl (queue q1), started := started q1 @ [ident r]\<rparr>
        in case requestFunction r of
             Suspends \<Rightarrow> q2\<lparr>awaiting := awaiting q2 @ [ident r]\<rparr>
           | Throws err \<Rightarrow>
               RequestQueue_process
                 (q2\<lparr>settled := settled q2 @ [(ident r, Rejected err)],
                     running := running q2 - 1,
                     running_log := running_log q2 @ [running q2 - 1]\<rparr>))"
  by pat_completeness auto
termination
  by (relation "measure (\<lambda>q. length (queue q))") auto

declare RequestQueue_process.simps [simp del]

text \<open>\<^verbatim>\<open>add\<close>: push the request, call \<^verbatim>\<open>process\<close>.\<close>

definition RequestQueue_add :: "RequestQueue \<Rightarrow> QueuedRequest \<Rightarrow> RequestQueue" where
  "RequestQueue_add q r = RequestQueue_process (q\<lparr>queue := queue q @ [r]\<rparr>)"

text \<open>
  The rest of \<^verbatim>\<open>process\<close>, run when the awaited promise of request \<open>i\<close> settles:
  \<^verbatim>\<open>resolve(result)\<close> or \<^verbatim>\<open>reject(error)\<close>, then \<^verbatim>\<open>finally\<close> decrements \<open>running\<close> and calls
  \<^verbatim>\<open>process\<close>. Only a suspended call can be resumed.
\<close>

definition RequestQueue_resume :: "RequestQueue \<Rightarrow> nat \<Rightarrow> settlement \<Rightarrow> RequestQueue" where
  "RequestQueue_resume q i outcome =
     (if i \<in> set (awaiting q)
      then RequestQueue_process
             (q\<lparr>awaiting := remove1 i (awaiting q),
                settled := settled q @ [(i, outcome)],
                running := running q - 1,
                running_log := running_log q @ [running q - 1]\<rparr>)
      else q)"

text \<open>
  An interleaved execution is a sequence of events: a caller submits a request, or the
  promise awaited for a started request settles.
\<close>

datatype event = Add QueuedRequest | Settle nat settlement

fun step :: "RequestQueue \<Rightarrow> event \<Rightarrow> RequestQueue" where
  "step q (Add r) = RequestQueue_add q r"
| "step q (Settle i outcome) = RequestQueue_resume q i outcome"

definition run :: "RequestQueue \<Rightarrow> event list \<Rightarrow> RequestQueue" where
  "run q evs = foldl step q evs"

fun submitted :: "event list \<Rightarrow> QueuedRequest list" where
  "submitted [] = []"
| "submitted (Add r # evs) = r # submitted evs"
| "submitted (Settle i outcome # evs) = submitted evs"

text \<open>
  The invariant of the queue: \<open>running\<close> counts the suspended calls of \<^verbatim>\<open>process\<close>, and
  neither it nor any value it ever had is a whole slot above \<open>maxConcurrent\<close>.
\<close>

definition queue_inv :: "RequestQueue \<Rightarrow> bool" where
  "queue_inv q \<longleftrightarrow>
     running q = int (length (awaiting q)) \<and> of_int (running q) < maxConcurrent q + 1 \<and>
     (\<forall>n\<in>set (running_log q). of_int n < maxConcurrent q + 1)"

text \<open>
  For the description of one dispatch: a request throws when its \<^verbatim>\<open>requestFunction\<close> does,
  and \<open>rejections\<close> lists the calls of \<^verbatim>\<open>reject\<close> that starting such requests causes.
\<close>

definition throws_at_once :: "QueuedRequest \<Rightarrow> bool" where
  "throws_at_once r \<longleftrightarrow> requestFunction r \<noteq> Suspends"

fun rejections :: "QueuedRequest list \<Rightarrow> (nat \<times> settlement) list" where
  "rejections [] = []"
| "rejections (r # rs) =
     (case requestFunction r of
        Throws err \<Rightarrow> (ident r, Rejected err) # rejections rs
      | Suspends \<Rightarrow> rejections rs)"

section \<open>The cache key: JSON.stringify\<close>

text \<open>
  \<^verbatim>\<open>createKey(options)\<close> is \<^verbatim>\<open>JSON.stringify(options)\<close>, a function of the language,
  called with one argument (no replacer, no indentation). Its argument is modelled as a
  tree of JavaScript values: \<^verbatim>\<open>undefined\<close>, a function (or a symbol, which is treated
  alike), \<^verbatim>\<open>null\<close>, a boolean, a finite number, one of \<^verbatim>\<open>NaN\<close>, \<^verbatim>\<open>Infinity\<close> and
  \<^verbatim>\<open>-Infinity\<close>, a string (of code units below 256), an array, or a plain object.

  A plain object is the list of its own enumerable properties with string keys, each with
  its key and its value, in the order in which the properties were created; so
  \<^verbatim>\<open>{a: 1, b: 2}\<close> and \<^verbatim>\<open>{b: 2, a: 1}\<close> are different lists with the same pairs. No key occurs twice in an object of the language;
  the theorems below assume it where they need it.

  The type \<open>'n\<close> of the finite numbers is left open, and the printing of a number is a
  parameter \<open>Number_toString\<close> of the model: the language prints \<^verbatim>\<open>512\<close> as \<^verbatim>\<open>512\<close>,
  \<^verbatim>\<open>0.5\<close> as \<^verbatim>\<open>0.5\<close> and \<^verbatim>\<open>1e21\<close> as \<^verbatim>\<open>1e+21\<close>, and nothing below depends on how.
  Values of type BigInt and values that contain themselves make \<^verbatim>\<open>JSON.stringify\<close>
  throw; they are not values of this type.
\<close>

datatype 'n jsvalue =
    JUndefined
  | JFunction
  | JNull
  | JBool bool
  | JNum 'n
  | JNonFinite
  | JStr string
  | JArr "'n jsvalue list"
  | JObj "(string \<times> 'n jsvalue) list"

text \<open>
  What serialising a value gives: a text; nothing, for \<^verbatim>\<open>undefined\<close> and for a function
  (\<^verbatim>\<open>JSON.stringify(undefined)\<close> is \<^verbatim>\<open>undefined\<close>, not a string); or a call of a
  \<^verbatim>\<open>toJSON\<close> method that the value carries, whose result is the method's business and is
  not modelled.
\<close>

datatype serial = Text string | NoText | Calls_toJSON

text \<open>
  \<^verbatim>\<open>QuoteJSONString\<close>: the double quote and the backslash are escaped with a backslash,
  the control characters below \<^verbatim>\<open>0x20\<close> by their short form or by \<^verbatim>\<open>\u00\<close> and two
  lower-case hexadecimal digits; \<open>CHR 0x22\<close> is the double quote and \<open>CHR 0x5C\<close> the
  backslash.
\<close>

definition hex_digit :: "nat \<Rightarrow> char" where
  "hex_digit n = (if n < 10 then char_of (48 + n) else char_of (87 + n))"

definition escape :: "char \<Rightarrow> string" where
  "escape c =
     (let n = (of_char c :: nat) in
      if n = 0x22 then [CHR 0x5C, CHR 0x22]
      else if n = 0x5C then [CHR 0x5C, CHR 0x5C]
      else if n = 0x08 then [CHR 0x5C, CHR ''b'']
      else if n = 0x0C then [CHR 0x5C, CHR ''f'']
      else if n = 0x0A then [CHR 0x5C, CHR ''n'']
      else if n = 0x0D then [CHR 0x5C, CHR ''r'']
      else if n = 0x09 then [CHR 0x5C, CHR ''t'']
      else if n < 0x20 then [CHR 0x5C, CHR ''u'', CHR ''0'', CHR ''0'', hex_digit (n div 16), hex_digit (n mod 16)]
      else [c])"

definition quote :: "string \<Rightarrow> string" where
  "quote s = CHR 0x22 # concat (map escape s) @ [CHR 0x22]"

text \<open>
  The order in which the properties of an object are visited (\<^verbatim>\<open>EnumerableOwnProperties\<close>,
  the order of \<^verbatim>\<open>Object.keys\<close>): first the keys that are array indices, in ascending
  numeric order, then the other keys in the order of their creation. An array index is the
  decimal numeral, without a leading zero, of an integer from 0 to \<^verbatim>\<open>2^32 - 2\<close>.
  \<open>sort_key\<close> is a stable sort; the indices of an object are distinct numbers, so that
  nothing depends on it.
\<close>

definition is_digit :: "char \<Rightarrow> bool" where
  "is_digit c \<longleftrightarrow> 48 \<le> (of_char c :: nat) \<and> (of_char c :: nat) \<le> 57"

definition digits_value :: "string \<Rightarrow> int" where
  "digits_value s = foldl (\<lambda>a c. 10 * a + (of_char c - 48)) 0 s"

definition array_index :: "string \<Rightarrow> int option" where
  "array_index s =
     (if s \<noteq> [] \<and> list_all is_digit s \<and> (hd s \<noteq> CHR ''0'' \<or> s = ''0'') \<and>
         digits_value s < 2 ^ 32 - 1
      then Some (digits_value s) else None)"

definition is_index :: "string \<Rightarrow> bool" where
  "is_index s \<longleftrightarrow> array_index s \<noteq> None"

definition index_value :: "string \<Rightarrow> int" where
  "index_value s = (case array_index s of Some n \<Rightarrow> n | None \<Rightarrow> 0)"

definition own_property_order :: "(string \<times> 'a) list \<Rightarrow> (string \<times> 'a) list" where
  "own_property_order ps =
     sort_key (\<lambda>p. index_value (fst p)) (filter (\<lambda>p. is_index (fst p)) ps) @
     filter (\<lambda>p. \<not> is_index (fst p)) ps"

text \<open>
  \<^verbatim>\<open>SerializeJSONProperty\<close>. In an array, an element that gives no text is printed as
  \<^verbatim>\<open>null\<close>; in an object, a property whose value gives no text is left out. A number that
  is not finite is printed as \<^verbatim>\<open>null\<close>. An object with a \<^verbatim>\<open>toJSON\<close> method hands the
  work over to that method.
\<close>

fun join :: "string list \<Rightarrow> string" where
  "join [] = []"
| "join [s] = s"
| "join (s # t # ss) = s @ CHR '','' # join (t # ss)"

fun element_text :: "serial \<Rightarrow> string" where
  "element_text (Text s) = s"
| "element_text NoText = ''null''"
| "element_text Calls_toJSON = []"

fun member_text :: "string \<times> serial \<Rightarrow> string list" where
  "member_text (k, Text s) = [quote k @ CHR '':'' # s]"
| "member_text (k, NoText) = []"
| "member_text (k, Calls_toJSON) = []"

definition array_text :: "serial list \<Rightarrow> serial" where
  "array_text rs =
     (if Calls_toJSON \<in> set rs then Calls_toJSON
      else Text (CHR ''['' # join (map element_text rs) @ '']''))"

definition object_text :: "(string \<times> serial) list \<Rightarrow> serial" where
  "object_text ms =
     (if Calls_toJSON \<in> snd ` set ms then Calls_toJSON
      else Text (CHR ''{'' # join (concat (map member_text ms)) @ ''}''))"

fun stringify :: "('n \<Rightarrow> string) \<Rightarrow> 'n jsvalue \<Rightarrow> serial" where
  "stringify Number_toString JUndefined = NoText"
| "stringify Number_toString JFunction = NoText"
| "stringify Number_toString JNull = Text ''null''"
| "stringify Number_toString (JBool b) = Text (if b then ''true'' else ''false'')"
| "stringify Number_toString (JNum n) = Text (Number_toString n)"
| "stringify Number_toString JNonFinite = Text ''null''"
| "stringify Number_toString (JStr s) = Text (quote s)"
| "stringify Number_toString (JArr xs) = array_text (map (stringify Number_toString) xs)"
| "stringify Number_toString (JObj ps) =
     (if (''toJSON'', JFunction) \<in> set ps then Calls_toJSON
      else object_text
             (own_property_order (map (\<lambda>(k, v). (k, stringify Number_toString v)) ps)))"

text \<open>\<^verbatim>\<open>createKey(options) { return JSON.stringify(options); }\<close>\<close>

definition createKey :: "('n \<Rightarrow> string) \<Rightarrow> 'n jsvalue \<Rightarrow> serial" where
  "createKey Number_toString options = stringify Number_toString options"

section \<open>Properties of the request queue\<close>

subsection \<open>One call of process\<close>

lemma process_idle:
  "maxConcurrent q \<le> of_int (running q) \<or> queue q = [] \<Longrightarrow> RequestQueue_process q = q"
  by (simp add: RequestQueue_process.simps)

lemma process_suspends:
  assumes "of_int (running q) < maxConcurrent q" "queue q = r # rs" "requestFunction r = Suspends"
  shows "RequestQueue_process q =
           q\<lparr>running := running q + 1, queue := rs, awaiting := awaiting q @ [ident r],
             started := started q @ [ident r],
             running_log := running_log q @ [running q + 1]\<rparr>"
  using assms by (subst RequestQueue_process.simps) (simp add: Let_def)

lemma process_throws:
  assumes "of_int (running q) < maxConcurrent q" "queue q = r # rs" "requestFunction r = Throws err"
  shows "RequestQueue_process q =
           RequestQueue_process
             (q\<lparr>queue := rs, started := started q @ [ident r],
                settled := settled q @ [(ident r, Rejected err)],
                running_log := running_log q @ [running q + 1, running q]\<rparr>)"
  using assms by (subst RequestQueue_process.simps) (simp add: Let_def)

text \<open>
  Induction along the calls of \<^verbatim>\<open>process\<close>: it returns at once, or starts the head of the
  pending list and suspends, or starts a head that throws and calls itself on the rest.
\<close>

lemma process_cases_induct [case_names idle suspends throws]:
  assumes idle: "\<And>q. maxConcurrent q \<le> of_int (running q) \<or> queue q = [] \<Longrightarrow> P q"
    and suspends: "\<And>q r rs. of_int (running q) < maxConcurrent q \<Longrightarrow> queue q = r # rs \<Longrightarrow>
            requestFunction r = Suspends \<Longrightarrow> P q"
    and throws: "\<And>q r rs err. of_int (running q) < maxConcurrent q \<Longrightarrow> queue q = r # rs \<Longrightarrow>
            requestFunction r = Throws err \<Longrightarrow>
            P (q\<lparr>queue := rs, started := started q @ [ident r],
                settled := settled q @ [(ident r, Rejected err)],
                running_log := running_log q @ [running q + 1, running q]\<rparr>) \<Longrightarrow> P q"
  shows "P q"
proof (induction "length (queue q)" arbitrary: q rule: less_induct)
  case less
  show ?case
  proof (cases "maxConcurrent q \<le> of_int (running q) \<or> queue q = []")
    case True
    then show ?thesis by (rule idle)
  next
    case False
    then obtain r rs where q: "queue q = r # rs" and lt: "of_int (running q) < maxConcurrent q"
      by (cases "queue q") auto
    show ?thesis
    proof (cases "requestFunction r")
      case Suspends
      with lt q show ?thesis by (rule suspends)
    next
      case (Throws err)
      show ?thesis
        by (rule throws [OF lt q Throws], rule less) (simp add: q)
    qed
  qed
qed

lemma process_maxConcurrent [simp]: "maxConcurrent (RequestQueue_process q) = maxConcurrent q"
  by (induction q rule: process_cases_induct)
     (simp_all add: process_idle process_suspends process_throws)

lemma process_running_awaiting:
  "running q = int (length (awaiting q)) \<Longrightarrow>
   running (RequestQueue_process q) = int (length (awaiting (RequestQueue_process q)))"
  by (induction q rule: process_cases_induct)
     (simp_all add: process_idle process_suspends process_throws)

lemma process_running_bound:
  "of_int (running q) < maxConcurrent q + 1 \<Longrightarrow>
   of_int (running (RequestQueue_process q)) < maxConcurrent q + 1"
  by (induction q rule: process_cases_induct)
     (simp_all add: process_idle process_suspends process_throws)

lemma process_running_log:
  "\<forall>n\<in>set (running_log q). of_int n < maxConcurrent q + 1 \<Longrightarrow>
   \<forall>n\<in>set (running_log (RequestQueue_process q)). of_int n < maxConcurrent q + 1"
  by (induction q rule: process_cases_induct)
     (auto simp add: process_idle process_suspends process_throws)

lemma process_order:
  "started (RequestQueue_process q) @ map ident (queue (RequestQueue_process q)) =
   started q @ map ident (queue q)"
  by (induction q rule: process_cases_induct)
     (simp_all add: process_idle process_suspends process_throws)

lemma process_started_prefix: "prefix (started q) (started (RequestQueue_process q))"
proof (induction q rule: process_cases_induct)
  case (throws q r rs err)
  then show ?case
    by (simp add: process_throws) (meson append_prefixD)
qed (simp_all add: process_idle process_suspends)

lemma process_starts_head:
  assumes "of_int (running q) < maxConcurrent q" "queue q = r # rs"
  shows "prefix (started q @ [ident r]) (started (RequestQueue_process q))"
proof (cases "requestFunction r")
  case Suspends
  with assms show ?thesis by (simp add: process_suspends)
next
  case (Throws err)
  show ?thesis
    using process_started_prefix [of "q\<lparr>queue := rs, started := started q @ [ident r],
                settled := settled q @ [(ident r, Rejected err)],
                running_log := running_log q @ [running q + 1, running q]\<rparr>"]
    by (simp add: process_throws [OF assms Throws])
qed

lemma process_settled:
  "\<exists>ys. settled (RequestQueue_process q) = settled q @ ys \<and>
        (\<forall>(j, out) \<in> set ys. \<exists>r\<in>set (queue q). \<exists>err.
            ident r = j \<and> requestFunction r = Throws err \<and> out = Rejected err)"
proof (induction q rule: process_cases_induct)
  case (throws q r rs err)
  then show ?case
    by (simp add: process_throws) fastforce
qed (simp_all add: process_idle process_suspends)

lemma process_settled_irrelevant:
  "(RequestQueue_process (q\<lparr>settled := s\<rparr>))\<lparr>settled := []\<rparr> = (RequestQueue_process q)\<lparr>settled := []\<rparr>"
proof (induction q arbitrary: s rule: process_cases_induct)
  case (idle q)
  then show ?case by (simp add: process_idle)
next
  case (suspends q r rs)
  then show ?case by (simp add: process_suspends)
next
  case (throws q r rs err)
  define q' where "q' = q\<lparr>queue := rs, started := started q @ [ident r],
                settled := settled q @ [(ident r, Rejected err)],
                running_log := running_log q @ [running q + 1, running q]\<rparr>"
  have a: "RequestQueue_process q = RequestQueue_process q'"
    unfolding q'_def using throws.hyps by (rule process_throws)
  have "RequestQueue_process (q\<lparr>settled := s\<rparr>) =
        RequestQueue_process (q'\<lparr>settled := s @ [(ident r, Rejected err)]\<rparr>)"
  proof -
    have "RequestQueue_process (q\<lparr>settled := s\<rparr>) =
          RequestQueue_process ((q\<lparr>settled := s\<rparr>)\<lparr>queue := rs,
             started := started (q\<lparr>settled := s\<rparr>) @ [ident r],
             settled := settled (q\<lparr>settled := s\<rparr>) @ [(ident r, Rejected err)],
             running_log := running_log (q\<lparr>settled := s\<rparr>) @
               [running (q\<lparr>settled := s\<rparr>) + 1, running (q\<lparr>settled := s\<rparr>)]\<rparr>)"
      using throws.hyps by (intro process_throws) simp_all
    also have "(q\<lparr>settled := s\<rparr>)\<lparr>queue := rs,
             started := started (q\<lparr>settled := s\<rparr>) @ [ident r],
             settled := settled (q\<lparr>settled := s\<rparr>) @ [(ident r, Rejected err)],
             running_log := running_log (q\<lparr>settled := s\<rparr>) @
               [running (q\<lparr>settled := s\<rparr>) + 1, running (q\<lparr>settled := s\<rparr>)]\<rparr> =
          q'\<lparr>settled := s @ [(ident r, Rejected err)]\<rparr>"
      by (cases q) (simp add: q'_def)
    finally show ?thesis .
  qed
  also have "\<dots>\<lparr>settled := []\<rparr> = (RequestQueue_process q')\<lparr>settled := []\<rparr>"
    unfolding q'_def by (rule throws.IH)
  finally show ?case by (simp only: a)
qed

subsection \<open>Executions\<close>

lemma queue_inv_process: "queue_inv q \<Longrightarrow> queue_inv (RequestQueue_process q)"
  unfolding queue_inv_def
  using process_running_awaiting [of q] process_running_bound [of q] process_running_log [of q]
  by simp

lemma length_remove1_int: "i \<in> set xs \<Longrightarrow> int (length (remove1 i xs)) = int (length xs) - 1"
proof -
  assume "i \<in> set xs"
  then have "0 < length xs" by (rule length_pos_if_in_set)
  then have "int (length xs - 1) = int (length xs) - 1" by linarith
  with \<open>i \<in> set xs\<close> show ?thesis by (simp add: length_remove1)
qed

lemma queue_inv_step: "queue_inv q \<Longrightarrow> queue_inv (step q ev)"
proof (cases ev)
  case (Add r)
  assume "queue_inv q"
  then have "queue_inv (q\<lparr>queue := queue q @ [r]\<rparr>)" by (simp add: queue_inv_def)
  then show ?thesis unfolding Add step.simps RequestQueue_add_def by (rule queue_inv_process)
next
  case (Settle i outcome)
  assume inv: "queue_inv q"
  show ?thesis
  proof (cases "i \<in> set (awaiting q)")
    case True
    with inv have "queue_inv (q\<lparr>awaiting := remove1 i (awaiting q),
                settled := settled q @ [(i, outcome)],
                running := running q - 1,
                running_log := running_log q @ [running q - 1]\<rparr>)"
      by (simp add: queue_inv_def length_remove1_int)
    then show ?thesis
      unfolding Settle step.simps RequestQueue_resume_def using True
      by (simp add: queue_inv_process)
  next
    case False
    with inv show ?thesis by (simp add: Settle RequestQueue_resume_def)
  qed
qed

lemma step_maxConcurrent [simp]: "maxConcurrent (step q ev) = maxConcurrent q"
  by (cases ev) (simp_all add: RequestQueue_add_def RequestQueue_resume_def)

lemma run_maxConcurrent [simp]: "maxConcurrent (run q evs) = maxConcurrent q"
  unfolding run_def by (induction evs arbitrary: q) simp_all

lemma queue_inv_run: "queue_inv q \<Longrightarrow> queue_inv (run q evs)"
  unfolding run_def by (induction evs arbitrary: q) (simp_all add: queue_inv_step)

lemma queue_inv_new: "0 \<le> N \<Longrightarrow> queue_inv (RequestQueue_new (Some N))"
  by (simp add: queue_inv_def RequestQueue_new_def)

lemma step_order:
  "started (step q ev) @ map ident (queue (step q ev)) =
   started q @ map ident (queue q) @ map ident (submitted [ev])"
  by (cases ev) (simp_all add: RequestQueue_add_def RequestQueue_resume_def process_order)

lemma submitted_append: "submitted (evs @ evs') = submitted evs @ submitted evs'"
  by (induction evs rule: submitted.induct) simp_all

lemma run_order:
  "started (run q evs) @ map ident (queue (run q evs)) =
   started q @ map ident (queue q) @ map ident (submitted evs)"
proof (induction evs rule: rev_induct)
  case Nil
  show ?case by (simp add: run_def)
next
  case (snoc ev evs)
  have "run q (evs @ [ev]) = step (run q evs) ev" by (simp add: run_def)
  then show ?case using snoc step_order [of "run q evs" ev]
    by (simp add: submitted_append)
qed

lemma rejections_append: "rejections (xs @ ys) = rejections xs @ rejections ys"
  by (induction xs) (simp_all split: invocation.splits)

text \<open>
  One call of \<^verbatim>\<open>process\<close> with a free slot: the requests at the head of the pending list
  that throw are started and rejected one after the other, the first request that does
  not throw is started and keeps the slot, and the call ends there.
\<close>

lemma process_explicit:
  "of_int (running q) < maxConcurrent q \<longrightarrow>
     queue (RequestQueue_process q) = drop 1 (dropWhile throws_at_once (queue q)) \<and>
     started (RequestQueue_process q) =
       started q @ map ident (takeWhile throws_at_once (queue q)) @
       map ident (take 1 (dropWhile throws_at_once (queue q))) \<and>
     settled (RequestQueue_process q) =
       settled q @ rejections (takeWhile throws_at_once (queue q)) \<and>
     awaiting (RequestQueue_process q) =
       awaiting q @ map ident (take 1 (dropWhile throws_at_once (queue q))) \<and>
     running (RequestQueue_process q) =
       running q + int (length (take 1 (dropWhile throws_at_once (queue q)))) \<and>
     running_log (RequestQueue_process q) =
       running_log q @
       concat (map (\<lambda>r. [running q + 1, running q]) (takeWhile throws_at_once (queue q))) @
       map (\<lambda>r. running q + 1) (take 1 (dropWhile throws_at_once (queue q)))"
proof (induction q rule: process_cases_induct)
  case (idle q)
  show ?case
  proof
    assume "of_int (running q) < maxConcurrent q"
    with idle have "queue q = []" by simp
    then show "queue (RequestQueue_process q) = drop 1 (dropWhile throws_at_once (queue q)) \<and>
     started (RequestQueue_process q) =
       started q @ map ident (takeWhile throws_at_once (queue q)) @
       map ident (take 1 (dropWhile throws_at_once (queue q))) \<and>
     settled (RequestQueue_process q) =
       settled q @ rejections (takeWhile throws_at_once (queue q)) \<and>
     awaiting (RequestQueue_process q) =
       awaiting q @ map ident (take 1 (dropWhile throws_at_once (queue q))) \<and>
     running (RequestQueue_process q) =
       running q + int (length (take 1 (dropWhile throws_at_once (queue q)))) \<and>
     running_log (RequestQueue_process q) =
       running_log q @
       concat (map (\<lambda>r. [running q + 1, running q]) (takeWhile throws_at_once (queue q))) @
       map (\<lambda>r. running q + 1) (take 1 (dropWhile throws_at_once (queue q)))"
      by (simp add: process_idle)
  qed
next
  case (suspends q r rs)
  then show ?case by (simp add: process_suspends throws_at_once_def)
next
  case (throws q r rs err)
  then show ?case by (simp add: process_throws throws_at_once_def)
qed

subsection \<open>The claims on the queue\<close>

lemma of_int_less_add_one_iff: "of_int n < (x::rat) + 1 \<longleftrightarrow> n \<le> \<lceil>x\<rceil>"
proof -
  have "of_int n < x + 1 \<longleftrightarrow> of_int (n - 1) < x" by (simp add: algebra_simps)
  also have "\<dots> \<longleftrightarrow> n - 1 < \<lceil>x\<rceil>" by (simp only: less_ceiling_iff)
  also have "\<dots> \<longleftrightarrow> n \<le> \<lceil>x\<rceil>" by linarith
  finally show ?thesis .
qed

text \<open>
  Claim C1, as amended. A queue is built with maximum concurrency \<open>N \<ge> 1\<close> and goes through
  any sequence of submissions and settlements. At the end of every such sequence the
  counter \<open>running\<close> equals the number of operations in flight and is at most the least
  integer that is not below \<open>N\<close>; so it is at most \<open>N\<close> when \<open>N\<close> is an integer. The same holds
  of every value ever written to \<open>running\<close> on the way, also inside one call of \<^verbatim>\<open>process\<close>.
\<close>

theorem running_never_exceeds_maxConcurrent:
  assumes "1 \<le> N"
  shows "running (run (RequestQueue_new (Some N)) evs) \<le> \<lceil>N\<rceil> \<and>
         (N \<in> \<int> \<longrightarrow> of_int (running (run (RequestQueue_new (Some N)) evs)) \<le> N) \<and>
         running (run (RequestQueue_new (Some N)) evs) =
           int (length (awaiting (run (RequestQueue_new (Some N)) evs))) \<and>
         (\<forall>n\<in>set (running_log (run (RequestQueue_new (Some N)) evs)).
            n \<le> \<lceil>N\<rceil> \<and> (N \<in> \<int> \<longrightarrow> of_int n \<le> N))"
proof -
  from assms have "queue_inv (run (RequestQueue_new (Some N)) evs)"
    by (intro queue_inv_run queue_inv_new) simp
  moreover have "maxConcurrent (run (RequestQueue_new (Some N)) evs) = N"
    by (simp add: RequestQueue_new_def)
  ultimately have r: "running (run (RequestQueue_new (Some N)) evs) \<le> \<lceil>N\<rceil>"
    and a: "running (run (RequestQueue_new (Some N)) evs) =
           int (length (awaiting (run (RequestQueue_new (Some N)) evs)))"
    and l: "\<forall>n\<in>set (running_log (run (RequestQueue_new (Some N)) evs)). n \<le> \<lceil>N\<rceil>"
    by (simp_all add: queue_inv_def of_int_less_add_one_iff)
  have int: "of_int n \<le> N" if "n \<le> \<lceil>N\<rceil>" "N \<in> \<int>" for n
  proof -
    from that(2) obtain z where "N = of_int z" by (auto elim: Ints_cases)
    with that(1) show ?thesis by simp
  qed
  from r a l int show ?thesis by blast
qed

theorem running_never_exceeds_maxConcurrent_witness:
  "(1::rat) \<le> 2 \<and> (2::rat) \<in> \<int> \<and>
   running (run (RequestQueue_new (Some 2))
     [Add \<lparr>ident = 1, requestFunction = Suspends\<rparr>, Add \<lparr>ident = 2, requestFunction = Suspends\<rparr>,
      Add \<lparr>ident = 3, requestFunction = Throws ''boom''\<rparr>, Add \<lparr>ident = 4, requestFunction = Suspends\<rparr>,
      Settle 2 (Resolved ''ok'')]) = 2 \<and>
   running_log (run (RequestQueue_new (Some 2))
     [Add \<lparr>ident = 1, requestFunction = Suspends\<rparr>, Add \<lparr>ident = 2, requestFunction = Suspends\<rparr>,
      Add \<lparr>ident = 3, requestFunction = Throws ''boom''\<rparr>, Add \<lparr>ident = 4, requestFunction = Suspends\<rparr>,
      Settle 2 (Resolved ''ok'')]) = [1, 2, 1, 2, 1, 2]"
  using running_never_exceeds_maxConcurrent [of 2
     "[Add \<lparr>ident = 1, requestFunction = Suspends\<rparr>, Add \<lparr>ident = 2, requestFunction = Suspends\<rparr>,
      Add \<lparr>ident = 3, requestFunction = Throws ''boom''\<rparr>, Add \<lparr>ident = 4, requestFunction = Suspends\<rparr>,
      Settle 2 (Resolved ''ok'')]"]
  by (simp add: run_def RequestQueue_new_def RequestQueue_add_def RequestQueue_resume_def
      RequestQueue_process.simps)

text \<open>
  Claim C1 as stated, for every \<open>N \<ge> 1\<close>, fails for a maximum that is not an integer: after
  \<^verbatim>\<open>new RequestQueue(1.5)\<close> the guard \<^verbatim>\<open>1 >= 1.5\<close> is false, the second operation is started
  and \<open>running\<close> is 2.
\<close>

theorem running_exceeds_fractional_maxConcurrent:
  "(1::rat) \<le> 3 / 2 \<and>
   running (run (RequestQueue_new (Some (3 / 2)))
     [Add \<lparr>ident = 1, requestFunction = Suspends\<rparr>, Add \<lparr>ident = 2, requestFunction = Suspends\<rparr>]) = 2 \<and>
   \<not> of_int (running (run (RequestQueue_new (Some (3 / 2)))
     [Add \<lparr>ident = 1, requestFunction = Suspends\<rparr>, Add \<lparr>ident = 2, requestFunction = Suspends\<rparr>]))
       \<le> (3 / 2 :: rat)"
  by (simp add: run_def RequestQueue_new_def RequestQueue_add_def RequestQueue_resume_def
      RequestQueue_process.simps)

text \<open>
  Claim C4. Whatever the argument of the constructor and whatever the sequence of events,
  the operations whose \<^verbatim>\<open>requestFunction\<close> has been called, in the order of these calls,
  followed by the operations still pending, are the submitted operations in the order of
  their submission. So the started operations are always an initial segment of the
  submissions: none starts before an earlier one has started.
\<close>

theorem started_in_submission_order:
  "started (run (RequestQueue_new arg) evs) @ map ident (queue (run (RequestQueue_new arg) evs))
     = map ident (submitted evs) \<and>
   prefix (started (run (RequestQueue_new arg) evs)) (map ident (submitted evs))"
proof -
  have "started (run (RequestQueue_new arg) evs) @ map ident (queue (run (RequestQueue_new arg) evs))
     = map ident (submitted evs)"
    using run_order [of "RequestQueue_new arg" evs] by (simp add: RequestQueue_new_def)
  then show ?thesis by (metis prefixI)
qed

theorem started_in_submission_order_witness:
  "started (run (RequestQueue_new (Some 1))
     [Add \<lparr>ident = 1, requestFunction = Suspends\<rparr>, Add \<lparr>ident = 2, requestFunction = Suspends\<rparr>,
      Add \<lparr>ident = 3, requestFunction = Suspends\<rparr>, Settle 1 (Resolved ''a''),
      Settle 2 (Rejected ''b'')]) = [1, 2, 3] \<and>
   prefix [1, 2, 3] (map ident (submitted
     [Add \<lparr>ident = 1, requestFunction = Suspends\<rparr>, Add \<lparr>ident = 2, requestFunction = Suspends\<rparr>,
      Add \<lparr>ident = 3, requestFunction = Suspends\<rparr>, Settle 1 (Resolved ''a''),
      Settle 2 (Rejected ''b'')]))"
  using started_in_submission_order [of "Some 1"
     "[Add \<lparr>ident = 1, requestFunction = Suspends\<rparr>, Add \<lparr>ident = 2, requestFunction = Suspends\<rparr>,
      Add \<lparr>ident = 3, requestFunction = Suspends\<rparr>, Settle 1 (Resolved ''a''),
      Settle 2 (Rejected ''b'')]"]
  by (simp add: run_def RequestQueue_new_def RequestQueue_add_def RequestQueue_resume_def
      RequestQueue_process.simps)

text \<open>
  Claim C5. The awaited promise of an operation \<open>i\<close> in flight rejects with \<open>err\<close>, in a
  queue whose counter is consistent. Then \<^verbatim>\<open>reject\<close> is called for \<open>i\<close> with \<open>err\<close>, and the
  only other callbacks called in that turn are the \<^verbatim>\<open>reject\<close> of the pending operations
  \<open>thrown\<close> that are started and throw by themselves, each with its own error. The counter
  is decremented and \<open>i\<close> leaves the operations in flight: with nothing pending the counter
  ends one lower, and otherwise the pending operations are started in order up to and
  including the first one that does not throw (\<open>next_one\<close>), which takes the slot. The
  counter stays consistent and within the bound, and apart from the logged outcome the
  queue is in the very state a success of \<open>i\<close> would have left it in (there is no error
  state).
\<close>

theorem failing_operation_does_not_block:
  assumes "i \<in> set (awaiting q)"
    and "running q = int (length (awaiting q))"
    and "of_int (running q) < maxConcurrent q + 1"
    and "thrown = takeWhile throws_at_once (queue q)"
    and "next_one = take 1 (dropWhile throws_at_once (queue q))"
    and "q' = RequestQueue_resume q i (Rejected err)"
  shows "settled q' = settled q @ (i, Rejected err) # rejections thrown \<and>
         (\<forall>(j, out) \<in> set (rejections thrown). \<exists>r\<in>set (queue q). \<exists>e.
             ident r = j \<and> requestFunction r = Throws e \<and> out = Rejected e) \<and>
         running q' = running q - 1 + int (length next_one) \<and>
         awaiting q' = remove1 i (awaiting q) @ map ident next_one \<and>
         started q' = started q @ map ident thrown @ map ident next_one \<and>
         queue q' = drop 1 (dropWhile throws_at_once (queue q)) \<and>
         running_log q' =
           running_log q @ [running q - 1] @
           concat (map (\<lambda>r. [running q, running q - 1]) thrown) @
           map (\<lambda>r. running q) next_one \<and>
         maxConcurrent q' = maxConcurrent q \<and>
         running q' = int (length (awaiting q')) \<and>
         of_int (running q') < maxConcurrent q + 1 \<and>
         (queue q = [] \<longrightarrow> running q' = running q - 1 \<and> awaiting q' = remove1 i (awaiting q)) \<and>
         (queue q \<noteq> [] \<longrightarrow> prefix (started q @ [ident (hd (queue q))]) (started q')) \<and>
         q'\<lparr>settled := []\<rparr> = (RequestQueue_resume q i (Resolved v))\<lparr>settled := []\<rparr>"
proof -
  define q1 where "q1 = (\<lambda>outcome. q\<lparr>awaiting := remove1 i (awaiting q),
                settled := settled q @ [(i, outcome)],
                running := running q - 1,
                running_log := running_log q @ [running q - 1]\<rparr>)"
  have resume: "RequestQueue_resume q i outcome = RequestQueue_process (q1 outcome)" for outcome
    using assms(1) by (simp add: RequestQueue_resume_def q1_def)
  have q': "q' = RequestQueue_process (q1 (Rejected err))" by (simp add: assms(6) resume)
  have free: "of_int (running (q1 (Rejected err))) < maxConcurrent (q1 (Rejected err))"
    using assms(3) by (simp add: q1_def)
  note ex = process_explicit [of "q1 (Rejected err)", THEN mp, OF free]
  have e1: "settled q' = settled q @ (i, Rejected err) # rejections thrown"
    using ex by (simp add: q' q1_def assms(4))
  have e2: "running q' = running q - 1 + int (length next_one)"
    using ex by (simp add: q' q1_def assms(5))
  have e3: "awaiting q' = remove1 i (awaiting q) @ map ident next_one"
    using ex by (simp add: q' q1_def assms(5))
  have e4: "started q' = started q @ map ident thrown @ map ident next_one"
    using ex by (simp add: q' q1_def assms(4,5))
  have e5: "queue q' = drop 1 (dropWhile throws_at_once (queue q))"
    using ex by (simp add: q' q1_def)
  have e6: "running_log q' =
           running_log q @ [running q - 1] @
           concat (map (\<lambda>r. [running q, running q - 1]) thrown) @
           map (\<lambda>r. running q) next_one"
    using ex by (simp add: q' q1_def assms(4,5))
  have e7: "maxConcurrent q' = maxConcurrent q" by (simp add: q' q1_def)
  have own: "\<forall>(j, out) \<in> set (rejections thrown). \<exists>r\<in>set (queue q). \<exists>e.
             ident r = j \<and> requestFunction r = Throws e \<and> out = Rejected e"
  proof -
    have "\<forall>(j, out) \<in> set (rejections xs). \<exists>r\<in>set xs. \<exists>e.
             ident r = j \<and> requestFunction r = Throws e \<and> out = Rejected e" for xs
      by (induction xs) (auto split: invocation.splits)
    moreover have "set thrown \<subseteq> set (queue q)"
      unfolding assms(4) by (auto dest: set_takeWhileD)
    ultimately show ?thesis by fastforce
  qed
  have ra: "running (q1 (Rejected err)) = int (length (awaiting (q1 (Rejected err))))"
    using assms(1,2) by (simp add: q1_def length_remove1_int)
  have e8: "running q' = int (length (awaiting q'))"
    unfolding q' using ra by (rule process_running_awaiting)
  have rb: "of_int (running (q1 (Rejected err))) < maxConcurrent (q1 (Rejected err)) + 1"
    using assms(3) by (simp add: q1_def)
  have e9: "of_int (running q') < maxConcurrent q + 1"
    using process_running_bound [OF rb] by (simp add: q' q1_def)
  have e10: "running q' = running q - 1 \<and> awaiting q' = remove1 i (awaiting q)" if "queue q = []"
    using that e2 e3 by (simp add: assms(5))
  have e11: "prefix (started q @ [ident (hd (queue q))]) (started q')" if "queue q \<noteq> []"
  proof -
    from that obtain r rs where "queue q = r # rs" by (cases "queue q") auto
    then show ?thesis
      using process_starts_head [of "q1 (Rejected err)" r rs] free by (simp add: q' q1_def)
  qed
  have e12: "q'\<lparr>settled := []\<rparr> = (RequestQueue_resume q i (Resolved v))\<lparr>settled := []\<rparr>"
  proof -
    have "q1 (Rejected err) = (q1 (Resolved v))\<lparr>settled := settled q @ [(i, Rejected err)]\<rparr>"
      by (simp add: q1_def)
    then show ?thesis by (simp only: q' resume process_settled_irrelevant)
  qed
  show ?thesis using e1 own e2 e3 e4 e5 e6 e7 e8 e9 e10 e11 e12 by blast
qed

theorem failing_operation_does_not_block_witness:
  "run (RequestQueue_new (Some 2))
     [Add \<lparr>ident = 1, requestFunction = Suspends\<rparr>, Add \<lparr>ident = 2, requestFunction = Suspends\<rparr>,
      Add \<lparr>ident = 3, requestFunction = Throws ''bad''\<rparr>,
      Add \<lparr>ident = 4, requestFunction = Suspends\<rparr>] =
    \<lparr>maxConcurrent = 2, running = 2,
     queue = [\<lparr>ident = 3, requestFunction = Throws ''bad''\<rparr>, \<lparr>ident = 4, requestFunction = Suspends\<rparr>],
     awaiting = [1, 2], started = [1, 2], settled = [], running_log = [1, 2]\<rparr> \<and>
   (1::nat) \<in> set [1, 2] \<and>
   RequestQueue_resume
     \<lparr>maxConcurrent = 2, running = 2,
      queue = [\<lparr>ident = 3, requestFunction = Throws ''bad''\<rparr>, \<lparr>ident = 4, requestFunction = Suspends\<rparr>],
      awaiting = [1, 2], started = [1, 2], settled = [], running_log = [1, 2]\<rparr>
     1 (Rejected ''failed'') =
    \<lparr>maxConcurrent = 2, running = 2, queue = [],
     awaiting = [2, 4], started = [1, 2, 3, 4],
     settled = [(1, Rejected ''failed''), (3, Rejected ''bad'')],
     running_log = [1, 2, 1, 2, 1, 2]\<rparr> \<and>
   RequestQueue_resume
     \<lparr>maxConcurrent = 2, running = 2, queue = [],
      awaiting = [1, 2], started = [1, 2], settled = [], running_log = [1, 2]\<rparr>
     1 (Rejected ''failed'') =
    \<lparr>maxConcurrent = 2, running = 1, queue = [],
     awaiting = [2], started = [1, 2], settled = [(1, Rejected ''failed'')],
     running_log = [1, 2, 1]\<rparr>"
  using failing_operation_does_not_block [where i = 1 and err = "''failed''" and v = "''ok''"
      and q = "\<lparr>maxConcurrent = 2, running = 2,
      queue = [\<lparr>ident = 3, requestFunction = Throws ''bad''\<rparr>, \<lparr>ident = 4, requestFunction = Suspends\<rparr>],
      awaiting = [1, 2], started = [1, 2], settled = [], running_log = [1, 2]\<rparr>"
      and thrown = "[\<lparr>ident = 3, requestFunction = Throws ''bad''\<rparr>]"
      and next_one = "[\<lparr>ident = 4, requestFunction = Suspends\<rparr>]"
      and q' = "RequestQueue_resume \<lparr>maxConcurrent = 2, running = 2,
      queue = [\<lparr>ident = 3, requestFunction = Throws ''bad''\<rparr>, \<lparr>ident = 4, requestFunction = Suspends\<rparr>],
      awaiting = [1, 2], started = [1, 2], settled = [], running_log = [1, 2]\<rparr> 1 (Rejected ''failed'')"]
  by (simp add: run_def RequestQueue_new_def RequestQueue_add_def RequestQueue_resume_def
      RequestQueue_process.simps throws_at_once_def)

section \<open>Properties of the image cache\<close>

subsection \<open>The map operations\<close>

lemma precedes_iff: "precedes xs p q \<longleftrightarrow> (\<exists>as bs cs. xs = as @ p # bs @ q # cs)"
proof (induction xs)
  case Nil
  show ?case by simp
next
  case (Cons x xs)
  show ?case
  proof
    assume "precedes (x # xs) p q"
    then consider "x = p" "q \<in> set xs" | "precedes xs p q" by auto
    then show "\<exists>as bs cs. x # xs = as @ p # bs @ q # cs"
    proof cases
      case 1
      from 1(2) obtain bs cs where "xs = bs @ q # cs" by (auto dest: split_list)
      with 1(1) have "x # xs = [] @ p # bs @ q # cs" by simp
      then show ?thesis by blast
    next
      case 2
      with Cons.IH obtain as bs cs where "xs = as @ p # bs @ q # cs" by auto
      then have "x # xs = (x # as) @ p # bs @ q # cs" by simp
      then show ?thesis by blast
    qed
  next
    assume "\<exists>as bs cs. x # xs = as @ p # bs @ q # cs"
    then obtain as bs cs where eq: "x # xs = as @ p # bs @ q # cs" by auto
    show "precedes (x # xs) p q"
    proof (cases as)
      case Nil
      with eq show ?thesis by simp
    next
      case (Cons a as')
      with eq have "xs = as' @ p # bs @ q # cs" by simp
      then have "precedes xs p q" using Cons.IH by blast
      then show ?thesis by simp
    qed
  qed
qed

lemma map_of_Map_set: "map_of (Map_set k e xs) = (map_of xs)(k \<mapsto> e)"
  by (induction xs) (auto simp: fun_eq_iff)

lemma Map_set_new: "k \<notin> fst ` set xs \<Longrightarrow> Map_set k e xs = xs @ [(k, e)]"
  by (induction xs) auto

lemma keys_Map_set_existing: "k \<in> fst ` set xs \<Longrightarrow> map fst (Map_set k e xs) = map fst xs"
  by (induction xs) auto

lemma length_Map_set_existing: "k \<in> fst ` set xs \<Longrightarrow> length (Map_set k e xs) = length xs"
  by (induction xs) auto

lemma keys_Map_set: "fst ` set (Map_set k e xs) = insert k (fst ` set xs)"
  by (induction xs) auto

lemma distinct_Map_set: "distinct (map fst xs) \<Longrightarrow> distinct (map fst (Map_set k e xs))"
proof (cases "k \<in> fst ` set xs")
  case True
  assume "distinct (map fst xs)"
  with True show ?thesis by (simp add: keys_Map_set_existing)
next
  case False
  assume "distinct (map fst xs)"
  with False show ?thesis by (simp add: Map_set_new)
qed

lemma set_Map_set_others:
  "set (Map_set k e xs) \<subseteq> insert (k, e) (set xs)"
  by (induction xs) auto

lemma map_of_Map_delete: "map_of (Map_delete k xs) = (map_of xs)(k := None)"
  by (induction xs) (auto simp: Map_delete_def fun_eq_iff)

lemma distinct_Map_delete: "distinct (map fst xs) \<Longrightarrow> distinct (map fst (Map_delete k xs))"
  by (simp add: Map_delete_def distinct_map_filter)

lemma length_Map_delete: "length (Map_delete k xs) \<le> length xs"
  by (simp add: Map_delete_def)

lemma fold_Map_delete:
  "fold (\<lambda>p m. Map_delete (fst p) m) rs xs = filter (\<lambda>p. fst p \<notin> fst ` set rs) xs"
  by (induction rs arbitrary: xs) (auto simp: Map_delete_def intro: filter_cong)


subsection \<open>Sorting by timestamp\<close>



lemma sorted_take_drop_le:
  assumes "sorted (map f ys)" "p \<in> set (take n ys)" "q \<in> set (drop n ys)"
  shows "f p \<le> f q"
proof -
  have "sorted (map f (take n ys) @ map f (drop n ys))"
    using assms(1) by (simp flip: map_append)
  with assms(2,3) show ?thesis by (auto simp: sorted_append)
qed

lemma sorted_last_max:
  assumes "sorted (map f ys)" "y \<in> set ys"
  shows "f y \<le> f (last ys)"
proof -
  from assms(2) have ne: "ys \<noteq> []" by auto
  then have ys: "ys = butlast ys @ [last ys]" by simp
  from assms(2) have "y \<in> set (butlast ys) \<or> y = last ys" by (subst (asm) ys) auto
  moreover have "sorted (map f (butlast ys) @ [f (last ys)])"
    using assms(1) by (subst (asm) ys) simp
  ultimately show ?thesis by (auto simp: sorted_append)
qed

lemma last_sort_key_strict_max:
  assumes "x \<in> set xs" "\<forall>y\<in>set xs. y \<noteq> x \<longrightarrow> f y < f x"
  shows "last (sort_key f xs) = x"
proof (rule ccontr)
  assume neq: "last (sort_key f xs) \<noteq> x"
  from assms(1) have "sort_key f xs \<noteq> []" by (metis empty_iff empty_set set_sort)
  then have "last (sort_key f xs) \<in> set xs" by (metis last_in_set set_sort)
  with neq assms(2) have "f (last (sort_key f xs)) < f x" by blast
  moreover have "f x \<le> f (last (sort_key f xs))"
    using assms(1) by (intro sorted_last_max) simp_all
  ultimately show False by simp
qed

lemma distinct_keys_sort_key:
  "distinct (map fst xs) \<Longrightarrow> distinct (map fst (sort_key f xs))"
  by (simp add: distinct_map)

subsection \<open>What cleanup removes\<close>

lemma cleanup_idle: "of_nat (length (cache c)) \<le> maxSize c \<Longrightarrow> ImageCache_cleanup c = c"
  by (simp add: ImageCache_cleanup_def)

lemma cleanup_cache:
  "\<not> of_nat (length (cache c)) \<le> maxSize c \<Longrightarrow>
   cache (ImageCache_cleanup c) =
     filter (\<lambda>p. fst p \<notin> fst ` set (take (excess c)
                                    (sort_key (\<lambda>p. timestamp (snd p)) (cache c))))
            (cache c)"
  by (simp add: ImageCache_cleanup_def Let_def fold_Map_delete excess_def)

lemma cleanup_fields [simp]:
  "maxSize (ImageCache_cleanup c) = maxSize c" "ttl (ImageCache_cleanup c) = ttl c"
  by (simp_all add: ImageCache_cleanup_def Let_def)

lemma filter_keys_is_filter_entries:
  assumes "distinct (map fst xs)" "set rs \<subseteq> set xs"
  shows "filter (\<lambda>p. fst p \<notin> fst ` set rs) xs = filter (\<lambda>p. p \<notin> set rs) xs"
proof (rule filter_cong [OF refl])
  fix p assume p: "p \<in> set xs"
  have "fst p \<in> fst ` set rs \<longleftrightarrow> p \<in> set rs"
  proof
    assume "fst p \<in> fst ` set rs"
    then obtain r where r: "r \<in> set rs" "fst r = fst p" by auto
    with assms(2) have "r \<in> set xs" by auto
    with assms(1) p r(2) have "r = p" by (metis distinct_map inj_onD)
    with r(1) show "p \<in> set rs" by simp
  qed auto
  then show "(fst p \<notin> fst ` set rs) = (p \<notin> set rs)" by simp
qed

lemma length_filter_removed:
  assumes "distinct xs" "distinct rs" "set rs \<subseteq> set xs"
  shows "length (filter (\<lambda>p. p \<notin> set rs) xs) = length xs - length rs"
proof -
  have "length (filter (\<lambda>p. p \<notin> set rs) xs) = card (set xs - set rs)"
    using assms(1) by (simp add: distinct_length_filter Diff_eq Int_commute Collect_neg_eq)
  also have "\<dots> = card (set xs) - card (set rs)"
    using assms(3) by (simp add: card_Diff_subset)
  finally show ?thesis using assms(1,2) by (simp add: distinct_card)
qed

lemma excess_ceiling:
  assumes "0 \<le> maxSize c" "maxSize c < of_nat (length (cache c))"
  shows "int (length (cache c)) - int (excess c) = \<lceil>maxSize c\<rceil>"
proof -
  have "\<lfloor>of_nat (length (cache c)) - maxSize c\<rfloor> = int (length (cache c)) - \<lceil>maxSize c\<rceil>"
    by (simp add: ceiling_def) linarith
  moreover have "\<lceil>maxSize c\<rceil> \<le> int (length (cache c))"
    using assms(2) by (simp add: ceiling_le_iff)
  ultimately show ?thesis by (simp add: excess_def)
qed

lemma cleanup_overflow:
  assumes d: "distinct (map fst (cache c))"
    and over: "maxSize c < of_nat (length (cache c))"
  shows "cache (ImageCache_cleanup c) =
           filter (\<lambda>p. p \<notin> set (take (excess c)
                                  (sort_key (\<lambda>p. timestamp (snd p)) (cache c)))) (cache c)"
    and "set (cache (ImageCache_cleanup c)) =
           set (drop (excess c) (sort_key (\<lambda>p. timestamp (snd p)) (cache c)))"
    and "length (cache (ImageCache_cleanup c)) = length (cache c) - excess c"
proof -
  define n where "n = excess c"
  define srt where "srt = sort_key (\<lambda>p. timestamp (snd p)) (cache c)"
  have dx: "distinct (cache c)" using d by (simp add: distinct_map)
  have ds: "distinct srt" using dx by (simp add: srt_def)
  have sub: "set (take n srt) \<subseteq> set (cache c)"
    using set_take_subset [of n srt] by (simp add: srt_def)
  have c1: "cache (ImageCache_cleanup c) = filter (\<lambda>p. p \<notin> set (take n srt)) (cache c)"
    using over cleanup_cache [of c] filter_keys_is_filter_entries [OF d sub]
    by (simp add: n_def srt_def)
  have "length (filter (\<lambda>p. p \<notin> set (take n srt)) (cache c)) = length (cache c) - length (take n srt)"
    using dx ds sub by (intro length_filter_removed) simp_all
  also have "\<dots> = length (cache c) - n" by (auto simp: srt_def)
  finally have c2: "length (cache (ImageCache_cleanup c)) = length (cache c) - n"
    by (simp add: c1)
  have "set (cache c) = set (take n srt) \<union> set (drop n srt)"
    by (metis append_take_drop_id set_append set_sort srt_def)
  moreover have "set (take n srt) \<inter> set (drop n srt) = {}"
    using ds by (metis append_take_drop_id distinct_append)
  ultimately have c3: "set (cache (ImageCache_cleanup c)) = set (drop n srt)"
    by (auto simp: c1)
  show "cache (ImageCache_cleanup c) =
           filter (\<lambda>p. p \<notin> set (take (excess c)
                                  (sort_key (\<lambda>p. timestamp (snd p)) (cache c)))) (cache c)"
    using c1 by (simp add: n_def srt_def)
  show "set (cache (ImageCache_cleanup c)) =
           set (drop (excess c) (sort_key (\<lambda>p. timestamp (snd p)) (cache c)))"
    using c3 by (simp add: n_def srt_def)
  show "length (cache (ImageCache_cleanup c)) = length (cache c) - excess c"
    using c2 by (simp add: n_def)
qed

text \<open>
  The sort is stable: of two entries with the same timestamp, the one that stands first
  in the map stands first among the sorted entries.
\<close>

lemma filter_split_precedes:
  "filter P xs = A @ B \<Longrightarrow> p \<in> set A \<Longrightarrow> q \<in> set B \<Longrightarrow> precedes xs p q"
proof (induction xs arbitrary: A)
  case Nil
  then show ?case by simp
next
  case (Cons x xs)
  have ext: "precedes (x # xs) p q" if "precedes xs p q"
  proof -
    from that obtain as bs cs where "xs = as @ p # bs @ q # cs" by (auto simp: precedes_iff)
    then have "x # xs = (x # as) @ p # bs @ q # cs" by simp
    then show ?thesis unfolding precedes_iff by blast
  qed
  show ?case
  proof (cases "P x")
    case False
    with Cons.prems have "filter P xs = A @ B" by simp
    from Cons.IH [OF this Cons.prems(2,3)] show ?thesis by (rule ext)
  next
    case True
    with Cons.prems(1) have eq: "x # filter P xs = A @ B" by simp
    from Cons.prems(2) obtain a A' where A: "A = a # A'" by (cases A) auto
    with eq have a: "a = x" and rest: "filter P xs = A' @ B" by simp_all
    show ?thesis
    proof (cases "p \<in> set A'")
      case True
      from Cons.IH [OF rest True Cons.prems(3)] show ?thesis by (rule ext)
    next
      case False
      with Cons.prems(2) A a have px: "p = x" by simp
      from Cons.prems(3) rest have "q \<in> set (filter P xs)" by simp
      then have "q \<in> set xs" by simp
      then obtain bs cs where "xs = bs @ q # cs" by (auto simp: in_set_conv_decomp)
      then have "x # xs = [] @ p # bs @ q # cs" by (simp add: px)
      then show ?thesis unfolding precedes_iff by blast
    qed
  qed
qed

lemma sort_key_stable_take_drop:
  assumes "p \<in> set (take n (sort_key f xs))" "q \<in> set (drop n (sort_key f xs))" "f p = f q"
  shows "precedes xs p q"
proof -
  have "filter (\<lambda>y. f y = f p) xs = filter (\<lambda>y. f y = f p) (sort_key f xs)"
    by (simp add: sort_key_stable)
  also have "\<dots> = filter (\<lambda>y. f y = f p) (take n (sort_key f xs)) @
                   filter (\<lambda>y. f y = f p) (drop n (sort_key f xs))"
    by (simp flip: filter_append)
  finally have eq: "filter (\<lambda>y. f y = f p) xs =
      filter (\<lambda>y. f y = f p) (take n (sort_key f xs)) @
      filter (\<lambda>y. f y = f p) (drop n (sort_key f xs))" .
  show ?thesis by (rule filter_split_precedes [OF eq]) (use assms in simp_all)
qed

lemma cleanup_removal_order:
  assumes d: "distinct (map fst (cache c))"
    and p: "p \<in> set (cache c)" "p \<notin> set (cache (ImageCache_cleanup c))"
    and q: "q \<in> set (cache (ImageCache_cleanup c))"
  shows "timestamp (snd p) < timestamp (snd q) \<or>
         timestamp (snd p) = timestamp (snd q) \<and> precedes (cache c) p q"
proof (cases "of_nat (length (cache c)) \<le> maxSize c")
  case True
  with p show ?thesis by (simp add: cleanup_idle)
next
  case False
  then have over: "maxSize c < of_nat (length (cache c))" by simp
  define srt where "srt = sort_key (\<lambda>p. timestamp (snd p)) (cache c)"
  have kept: "set (cache (ImageCache_cleanup c)) = set (drop (excess c) srt)"
    using cleanup_overflow(2) [OF d over] by (simp add: srt_def)
  have "set (cache c) = set (take (excess c) srt) \<union> set (drop (excess c) srt)"
    by (metis append_take_drop_id set_append set_sort srt_def)
  with p kept have pt: "p \<in> set (take (excess c) srt)" by auto
  from q kept have qd: "q \<in> set (drop (excess c) srt)" by simp
  have "sorted (map (\<lambda>p. timestamp (snd p)) srt)" by (simp add: srt_def)
  then have le: "timestamp (snd p) \<le> timestamp (snd q)"
    using pt qd by (rule sorted_take_drop_le)
  show ?thesis
  proof (cases "timestamp (snd p) = timestamp (snd q)")
    case True
    with pt qd have "precedes (cache c) p q"
      unfolding srt_def by (intro sort_key_stable_take_drop [where f = "\<lambda>p. timestamp (snd p)"])
    with True show ?thesis by simp
  next
    case False
    with le show ?thesis by simp
  qed
qed


lemma cleanup_length:
  assumes "distinct (map fst (cache c))" "0 \<le> maxSize c"
  shows "int (length (cache (ImageCache_cleanup c))) \<le> \<lceil>maxSize c\<rceil>"
proof (cases "of_nat (length (cache c)) \<le> maxSize c")
  case True
  then have "int (length (cache c)) \<le> \<lceil>maxSize c\<rceil>"
    using ceiling_mono [of "of_nat (length (cache c))" "maxSize c"] by simp
  with True show ?thesis by (simp add: cleanup_idle)
next
  case False
  then have over: "maxSize c < of_nat (length (cache c))" by simp
  have "0 \<le> \<lceil>maxSize c\<rceil>" using assms(2) by simp
  then show ?thesis
    using cleanup_overflow(3) [OF assms(1) over] excess_ceiling [OF assms(2) over] by linarith
qed


lemma cleanup_distinct:
  "distinct (map fst (cache c)) \<Longrightarrow> distinct (map fst (cache (ImageCache_cleanup c)))"
  by (cases "of_nat (length (cache c)) \<le> maxSize c")
     (simp_all add: cleanup_idle cleanup_cache distinct_map_filter)

lemma cleanup_set_subset: "set (cache (ImageCache_cleanup c)) \<subseteq> set (cache c)"
  by (cases "of_nat (length (cache c)) \<le> maxSize c") (auto simp: cleanup_idle cleanup_cache)

text \<open>When the size is within \<open>maxSize\<close> rounded up, \<^verbatim>\<open>cleanup\<close> removes nothing.\<close>

lemma cleanup_within_ceiling:
  assumes "int (length (cache c)) \<le> \<lceil>maxSize c\<rceil>"
  shows "cache (ImageCache_cleanup c) = cache c"
proof (cases "of_nat (length (cache c)) \<le> maxSize c")
  case True
  then show ?thesis by (simp add: cleanup_idle)
next
  case False
  have "of_nat (length (cache c)) - maxSize c < 1"
    using assms by (simp add: le_ceiling_iff) 
  moreover have "0 \<le> of_nat (length (cache c)) - maxSize c" using False by simp
  ultimately have "excess c = 0" by (simp add: excess_def floor_eq_iff)
  with False show ?thesis by (simp add: cleanup_cache)
qed

subsection \<open>The invariant holds in every cache built by the constructor\<close>

text \<open>
  The constructor with a maximum size that is not negative establishes \<open>cache_inv\<close>, and
  \<^verbatim>\<open>set\<close> and \<^verbatim>\<open>get\<close> keep it as long as the clock does not go back. The hypotheses of the
  theorems below on the keys, the size and the timestamps therefore hold in every state
  such a cache can reach.
\<close>

lemma get_fields [simp]:
  "maxSize (snd (ImageCache_get c k t)) = maxSize c" "ttl (snd (ImageCache_get c k t)) = ttl c"
  by (simp_all add: ImageCache_get_def split: option.splits)

lemma set_fields [simp]:
  "maxSize (ImageCache_set c k v now) = maxSize c" "ttl (ImageCache_set c k v now) = ttl c"
  by (simp_all add: ImageCache_set_def)

lemma cache_inv_new:
  "0 \<le> or_default (opt_maxSize options) 100 \<Longrightarrow> cache_inv (ImageCache_new options) now"
  by (simp add: cache_inv_def ImageCache_new_def)

lemma cache_inv_set:
  assumes "cache_inv c t" "0 \<le> maxSize c" "t \<le> now"
  shows "cache_inv (ImageCache_set c k v now) now"
proof -
  define c1 where "c1 = c\<lparr>cache := Map_set k \<lparr>entry_value = v, timestamp = now, accessCount = 1\<rparr> (cache c)\<rparr>"
  have set: "ImageCache_set c k v now = ImageCache_cleanup c1"
    by (simp add: ImageCache_set_def c1_def)
  have d: "distinct (map fst (cache c1))"
    using assms(1) by (simp add: c1_def cache_inv_def distinct_Map_set)
  have m: "0 \<le> maxSize c1" using assms(2) by (simp add: c1_def)
  have ts: "\<forall>p\<in>set (cache c1). timestamp (snd p) \<le> now"
    using assms(1,3) set_Map_set_others [of k "\<lparr>entry_value = v, timestamp = now, accessCount = 1\<rparr>" "cache c"]
    by (fastforce simp: c1_def cache_inv_def)
  show ?thesis
    unfolding cache_inv_def set
    using cleanup_distinct [OF d] cleanup_length [OF d m] ts cleanup_set_subset [of c1]
    by (auto simp: c1_def)
qed

lemma cache_inv_get:
  assumes "cache_inv c t" "t \<le> now"
  shows "cache_inv (snd (ImageCache_get c k now)) now"
proof (cases "map_of (cache c) k")
  case None
  with assms show ?thesis by (force simp: ImageCache_get_def cache_inv_def)
next
  case (Some e)
  then have key: "k \<in> fst ` set (cache c)" by (metis map_of_eq_None_iff option.distinct(1))
  have mem: "(k, e) \<in> set (cache c)" using Some by (rule map_of_SomeD)
  show ?thesis
  proof (cases "now - timestamp e > ttl c")
    case True
    have get: "cache (snd (ImageCache_get c k now)) = Map_delete k (cache c)"
      using True Some by (simp add: ImageCache_get_def)
    have "int (length (Map_delete k (cache c))) \<le> \<lceil>maxSize c\<rceil>"
      using length_Map_delete [of k "cache c"] assms(1) by (simp add: cache_inv_def)
    moreover have "distinct (map fst (Map_delete k (cache c)))"
      using assms(1) by (simp add: cache_inv_def distinct_Map_delete)
    moreover have "\<forall>p\<in>set (Map_delete k (cache c)). timestamp (snd p) \<le> now"
      using assms by (force simp: cache_inv_def Map_delete_def)
    ultimately show ?thesis by (simp add: cache_inv_def get)
  next
    case False
    have "\<forall>p\<in>set (Map_set k (e\<lparr>accessCount := accessCount e + 1\<rparr>) (cache c)). timestamp (snd p) \<le> now"
      using assms mem set_Map_set_others [of k "e\<lparr>accessCount := accessCount e + 1\<rparr>" "cache c"]
      by (fastforce simp: cache_inv_def)
    with assms False Some key show ?thesis
      by (simp add: ImageCache_get_def cache_inv_def distinct_Map_set length_Map_set_existing)
  qed
qed

subsection \<open>The size bound\<close>




subsection \<open>Reading\<close>

text \<open>
  Claim C3. \<^verbatim>\<open>get\<close> returns a value exactly when the key has an entry whose age
  \<open>t - timestamp\<close> is at most \<open>ttl\<close>; it is then the stored value, the access counter of the
  entry is incremented and the entry keeps its place. An entry older than \<open>ttl\<close> gives
  \<^verbatim>\<open>null\<close> and is removed; a missing key gives \<^verbatim>\<open>null\<close> and leaves the cache as it is. No
  other key is affected. With \<open>ttl = 1000\<close>, an entry stamped \<open>T\<close> is returned at \<open>T + 999\<close>
  and not at \<open>T + 1001\<close>.
\<close>

theorem get_returns_unexpired_value:
  "(fst (ImageCache_get c k t) \<noteq> None \<longleftrightarrow>
      (\<exists>e. map_of (cache c) k = Some e \<and> t - timestamp e \<le> ttl c)) \<and>
   (\<forall>e. map_of (cache c) k = Some e \<and> t - timestamp e \<le> ttl c \<longrightarrow>
      fst (ImageCache_get c k t) = Some (entry_value e) \<and>
      map_of (cache (snd (ImageCache_get c k t))) k = Some (e\<lparr>accessCount := accessCount e + 1\<rparr>) \<and>
      map fst (cache (snd (ImageCache_get c k t))) = map fst (cache c)) \<and>
   (\<forall>e. map_of (cache c) k = Some e \<and> \<not> t - timestamp e \<le> ttl c \<longrightarrow>
      fst (ImageCache_get c k t) = None \<and>
      map_of (cache (snd (ImageCache_get c k t))) k = None) \<and>
   (map_of (cache c) k = None \<longrightarrow> ImageCache_get c k t = (None, c)) \<and>
   (\<forall>k'. k' \<noteq> k \<longrightarrow> map_of (cache (snd (ImageCache_get c k t))) k' = map_of (cache c) k') \<and>
   (\<forall>e. ttl c = 1000 \<and> map_of (cache c) k = Some e \<longrightarrow>
      fst (ImageCache_get c k (timestamp e + 999)) = Some (entry_value e) \<and>
      fst (ImageCache_get c k (timestamp e + 1001)) = None)"
proof -
  have in_keys: "k \<in> fst ` set (cache c)" if "map_of (cache c) k = Some e" for e
    using that by (metis map_of_eq_None_iff option.distinct(1))
  show ?thesis
    by (auto simp: ImageCache_get_def map_of_Map_set map_of_Map_delete
        keys_Map_set_existing in_keys split: option.splits)
qed

theorem get_returns_unexpired_value_witness:
  "fst (ImageCache_get (ImageCache_set (ImageCache_new \<lparr>opt_maxSize = None, opt_ttl = Some 1000\<rparr>)
          ''k'' ''img'' 5000) ''k'' 5999) = Some ''img'' \<and>
   fst (ImageCache_get (ImageCache_set (ImageCache_new \<lparr>opt_maxSize = None, opt_ttl = Some 1000\<rparr>)
          ''k'' ''img'' 5000) ''k'' 6001) = None \<and>
   ImageCache_get \<lparr>maxSize = 100, ttl = 1000,
       cache = [(''k'', \<lparr>entry_value = ''img'', timestamp = 5000, accessCount = 1\<rparr>)]\<rparr> ''k'' 6000 =
     (Some ''img'', \<lparr>maxSize = 100, ttl = 1000,
       cache = [(''k'', \<lparr>entry_value = ''img'', timestamp = 5000, accessCount = 2\<rparr>)]\<rparr>) \<and>
   ImageCache_get \<lparr>maxSize = 100, ttl = 1000,
       cache = [(''k'', \<lparr>entry_value = ''img'', timestamp = 5000, accessCount = 1\<rparr>)]\<rparr> ''k'' 6001 =
     (None, \<lparr>maxSize = 100, ttl = 1000, cache = []\<rparr>)"
  using get_returns_unexpired_value [of
     "\<lparr>maxSize = 100, ttl = 1000,
       cache = [(''k'', \<lparr>entry_value = ''img'', timestamp = 5000, accessCount = 1\<rparr>)]\<rparr>" "''k''" 6000]
  by (simp add: ImageCache_get_def ImageCache_set_def ImageCache_new_def ImageCache_cleanup_def
      or_default_def Map_delete_def Let_def)

subsection \<open>The options 0 are replaced by the defaults\<close>

lemma set_nonpositive_maxSize:
  assumes "maxSize c \<le> 0" shows "cache (ImageCache_set c k v now) = []"
proof -
  define xs where "xs = Map_set k \<lparr>entry_value = v, timestamp = now, accessCount = 1\<rparr> (cache c)"
  have ne: "xs \<noteq> []" unfolding xs_def by (cases "cache c") auto
  then have over: "\<not> of_nat (length xs) \<le> maxSize c" using assms by (cases xs) auto
  have "int (length xs) \<le> \<lfloor>of_nat (length xs) - maxSize c\<rfloor>"
    using assms by (simp add: le_floor_iff)
  then have "length xs \<le> excess (c\<lparr>cache := xs\<rparr>)" by (simp add: excess_def)
  then have "take (excess (c\<lparr>cache := xs\<rparr>)) (sort_key (\<lambda>p. timestamp (snd p)) xs)
          = sort_key (\<lambda>p. timestamp (snd p)) xs"
    by simp
  then have "cache (ImageCache_cleanup (c\<lparr>cache := xs\<rparr>)) = filter (\<lambda>p. fst p \<notin> fst ` set xs) xs"
    using over cleanup_cache [of "c\<lparr>cache := xs\<rparr>"] by simp
  also have "\<dots> = []" by (simp add: filter_empty_conv)
  finally show ?thesis by (simp add: ImageCache_set_def xs_def)
qed

text \<open>
  Claim C6, as amended. The constructor replaces a maximum size of 0 by the default 100,
  so a cache constructed with maximum size 0 stores the entry that \<^verbatim>\<open>set\<close> inserts. A cache
  whose field \<open>maxSize\<close> is 0 or negative (the constructor yields such a field for a
  negative option only) stores nothing: after \<^verbatim>\<open>set\<close> the map is empty and every \<^verbatim>\<open>get\<close>
  returns \<^verbatim>\<open>null\<close>.
\<close>

theorem maxSize_zero_is_default:
  "maxSize (ImageCache_new \<lparr>opt_maxSize = Some 0, opt_ttl = t\<rparr>) = 100 \<and>
   cache (ImageCache_set (ImageCache_new \<lparr>opt_maxSize = Some 0, opt_ttl = t\<rparr>) k v now) =
     [(k, \<lparr>entry_value = v, timestamp = now, accessCount = 1\<rparr>)] \<and>
   (maxSize c \<le> 0 \<longrightarrow>
      cache (ImageCache_set c k v now) = [] \<and>
      (\<forall>k' t'. fst (ImageCache_get (ImageCache_set c k v now) k' t') = None))"
  by (simp add: set_nonpositive_maxSize ImageCache_get_def)
     (simp add: ImageCache_set_def ImageCache_new_def ImageCache_cleanup_def or_default_def)

theorem maxSize_zero_is_default_witness:
  "maxSize (ImageCache_new \<lparr>opt_maxSize = Some (- 1), opt_ttl = None\<rparr>) \<le> 0 \<and>
   cache (ImageCache_set (ImageCache_new \<lparr>opt_maxSize = Some (- 1), opt_ttl = None\<rparr>)
      ''k'' ''img'' 5000) = [] \<and>
   fst (ImageCache_get (ImageCache_set (ImageCache_new \<lparr>opt_maxSize = Some (- 1), opt_ttl = None\<rparr>)
      ''k'' ''img'' 5000) ''k'' 5000) = None"
  using maxSize_zero_is_default [where c = "ImageCache_new \<lparr>opt_maxSize = Some (- 1), opt_ttl = None\<rparr>"
      and k = "''k''" and v = "''img''" and now = 5000]
  by (simp add: ImageCache_new_def or_default_def)

text \<open>
  Claim C6 as stated fails: after \<^verbatim>\<open>new ImageCache({ maxSize: 0 })\<close> and one \<^verbatim>\<open>set\<close>, the
  entry is in the cache and \<^verbatim>\<open>get\<close> returns its value.
\<close>

theorem maxSize_zero_stores_entries:
  "fst (ImageCache_get (ImageCache_set (ImageCache_new \<lparr>opt_maxSize = Some 0, opt_ttl = None\<rparr>)
          ''k'' ''img'' 5000) ''k'' 5000) = Some ''img'' \<and>
   length (cache (ImageCache_set (ImageCache_new \<lparr>opt_maxSize = Some 0, opt_ttl = None\<rparr>)
          ''k'' ''img'' 5000)) = 1"
  by (simp add: ImageCache_get_def ImageCache_set_def ImageCache_new_def ImageCache_cleanup_def
      or_default_def Map_delete_def Let_def)

text \<open>
  Claim C7, as amended. The constructor replaces a time-to-live of 0 by the default of
  3600000 milliseconds, whatever the maximum size, and neither \<^verbatim>\<open>set\<close> nor \<^verbatim>\<open>get\<close>
  changes the field. So in a cache constructed with time-to-live 0, an entry that the
  cache holds for \<open>k\<close>, stamped \<open>T\<close>, is returned by \<^verbatim>\<open>get\<close> at \<open>t\<close> exactly when
  \<open>t - T \<le> 3600000\<close>. In a cache whose field \<open>ttl\<close> is 0 or negative (the constructor yields
  such a field for a negative option only), an entry stamped \<open>T\<close> gives \<^verbatim>\<open>null\<close> at every
  \<open>t \<ge> T + 1\<close>.
\<close>

theorem ttl_zero_is_default:
  "ttl (ImageCache_new \<lparr>opt_maxSize = m, opt_ttl = Some 0\<rparr>) = 3600000 \<and>
   ttl (ImageCache_set c k' v now) = ttl c \<and>
   ttl (snd (ImageCache_get c k' now)) = ttl c \<and>
   (\<forall>e. ttl c = ttl (ImageCache_new \<lparr>opt_maxSize = m, opt_ttl = Some 0\<rparr>) \<and>
        map_of (cache c) k = Some e \<longrightarrow>
      fst (ImageCache_get c k t) =
        (if t - timestamp e \<le> 3600000 then Some (entry_value e) else None)) \<and>
   (\<forall>e. ttl c \<le> 0 \<and> map_of (cache c) k = Some e \<and> timestamp e + 1 \<le> t \<longrightarrow>
      fst (ImageCache_get c k t) = None)"
proof -
  have "ttl (snd (ImageCache_get c k' now)) = ttl c" "ttl (ImageCache_set c k' v now) = ttl c"
    by simp_all
  then show ?thesis
    by (auto simp add: ImageCache_get_def ImageCache_new_def or_default_def
        simp del: get_fields set_fields)
qed

theorem ttl_zero_is_default_witness:
  "ImageCache_set (ImageCache_new \<lparr>opt_maxSize = Some 5, opt_ttl = Some 0\<rparr>) ''k'' ''img'' 5000 =
     \<lparr>maxSize = 5, ttl = 3600000,
      cache = [(''k'', \<lparr>entry_value = ''img'', timestamp = 5000, accessCount = 1\<rparr>)]\<rparr> \<and>
   fst (ImageCache_get \<lparr>maxSize = 5, ttl = 3600000,
      cache = [(''k'', \<lparr>entry_value = ''img'', timestamp = 5000, accessCount = 1\<rparr>)]\<rparr> ''k'' 5001) =
     Some ''img'' \<and>
   ttl (ImageCache_new \<lparr>opt_maxSize = None, opt_ttl = Some (- 1)\<rparr>) \<le> 0 \<and>
   fst (ImageCache_get \<lparr>maxSize = 100, ttl = - 1,
       cache = [(''k'', \<lparr>entry_value = ''img'', timestamp = 5000, accessCount = 1\<rparr>)]\<rparr> ''k'' 5001) = None"
  using ttl_zero_is_default [where k = "''k''" and t = 5001 and m = "Some 5"
       and c = "\<lparr>maxSize = 5, ttl = 3600000,
      cache = [(''k'', \<lparr>entry_value = ''img'', timestamp = 5000, accessCount = 1\<rparr>)]\<rparr>"]
    ttl_zero_is_default [where k = "''k''" and t = 5001
       and c = "\<lparr>maxSize = 100, ttl = - 1,
       cache = [(''k'', \<lparr>entry_value = ''img'', timestamp = 5000, accessCount = 1\<rparr>)]\<rparr>"]
  by (simp add: ImageCache_new_def or_default_def ImageCache_get_def ImageCache_set_def
      ImageCache_cleanup_def)

text \<open>
  Claim C7 as stated fails: after \<^verbatim>\<open>new ImageCache({ ttl: 0 })\<close>, an entry inserted at
  5000 is still returned at 5001.
\<close>

theorem ttl_zero_entry_survives:
  "fst (ImageCache_get (ImageCache_set (ImageCache_new \<lparr>opt_maxSize = None, opt_ttl = Some 0\<rparr>)
          ''k'' ''img'' 5000) ''k'' 5001) = Some ''img''"
  by (simp add: ImageCache_get_def ImageCache_set_def ImageCache_new_def ImageCache_cleanup_def
      or_default_def Map_delete_def Let_def)

subsection \<open>Inserting a key again\<close>

lemma precedesI: "xs = as @ p # bs @ q # cs \<Longrightarrow> precedes xs p q"
  unfolding precedes_iff by (intro exI)

lemma precedesE:
  assumes "precedes xs p q"
  obtains as bs cs where "xs = as @ p # bs @ q # cs"
  using assms unfolding precedes_iff by (elim exE)

lemma precedes_append: "precedes xs p q \<Longrightarrow> precedes (xs @ ys) p q"
proof -
  assume "precedes xs p q"
  then obtain as bs cs where "xs = as @ p # bs @ q # cs" by (rule precedesE)
  then have "xs @ ys = as @ p # bs @ q # (cs @ ys)" by simp
  then show ?thesis by (rule precedesI)
qed

lemma precedes_nth:
  assumes "precedes xs p q"
  shows "\<exists>i j. i < j \<and> j < length xs \<and> xs ! i = p \<and> xs ! j = q"
proof -
  from assms obtain as bs cs where xs: "xs = as @ p # bs @ q # cs" by (rule precedesE)
  have 1: "xs ! length as = p" unfolding xs by simp
  have "(as @ p # bs @ q # cs) ! (length as + Suc (length bs)) = (p # bs @ q # cs) ! Suc (length bs)"
    by (rule nth_append_length_plus)
  also have "\<dots> = (bs @ q # cs) ! length bs" by simp
  also have "\<dots> = q" by simp
  finally have 2: "xs ! (length as + Suc (length bs)) = q" unfolding xs .
  have 3: "length as + Suc (length bs) < length xs" unfolding xs by simp
  have 4: "length as < length as + Suc (length bs)" by simp
  from 4 3 1 2 show ?thesis by (intro exI conjI)
qed

lemma precedes_antisym:
  assumes "distinct xs" "precedes xs p q"
  shows "\<not> precedes xs q p"
proof
  assume "precedes xs q p"
  from precedes_nth [OF this] obtain i' j'
    where b: "i' < j'" "j' < length xs" "xs ! i' = q" "xs ! j' = p" by blast
  from precedes_nth [OF assms(2)] obtain i j
    where a: "i < j" "j < length xs" "xs ! i = p" "xs ! j = q" by blast
  have "xs ! i = xs ! j'" by (simp only: a(3) b(4))
  moreover have "i < length xs" "j' < length xs" using a(1,2) b(2) by simp_all
  ultimately have 1: "i = j'" using assms(1) by (simp only: nth_eq_iff_index_eq)
  have "xs ! j = xs ! i'" by (simp only: a(4) b(3))
  moreover have "j < length xs" "i' < length xs" using a(2) b(1,2) by simp_all
  ultimately have "j = i'" using assms(1) by (simp only: nth_eq_iff_index_eq)
  with 1 a(1) b(1) show False by simp
qed

lemma set_new_key_inserted:
  "j \<notin> fst ` set (cache c) \<Longrightarrow>
   ImageCache_set c j w t =
     ImageCache_cleanup (c\<lparr>cache := cache c @ [(j, \<lparr>entry_value = w, timestamp = t, accessCount = 1\<rparr>)]\<rparr>)"
  by (simp add: ImageCache_set_def Map_set_new)

lemma precedes_butlast:
  assumes "precedes (xs @ [x]) p q" "q \<noteq> x"
  shows "precedes xs p q"
proof -
  from assms(1) obtain as bs cs where dec: "xs @ [x] = as @ p # bs @ q # cs"
    by (rule precedesE)
  have "cs \<noteq> []"
  proof
    assume "cs = []"
    with dec have "xs @ [x] = (as @ p # bs) @ [q]" by simp
    then have "x = q" by (simp only: append1_eq_conv)
    with assms(2) show False by simp
  qed
  then have "cs = butlast cs @ [last cs]" by simp
  then have "as @ p # bs @ q # cs = (as @ p # bs @ q # butlast cs) @ [last cs]"
    by (metis append.assoc append_Cons)
  with dec have "xs @ [x] = (as @ p # bs @ q # butlast cs) @ [last cs]" by simp
  then have "xs = as @ p # bs @ q # butlast cs" by (simp only: append1_eq_conv)
  then show ?thesis by (rule precedesI)
qed

text \<open>
  The order of eviction at the insertion of a new key \<open>j\<close> into any cache: an entry that is
  removed is older than every entry that is kept, or as old and before it in the map.
\<close>

lemma eviction_order:
  assumes d: "distinct (map fst (cache c))" and j: "j \<notin> fst ` set (cache c)"
    and p: "p \<in> set (cache c)" "p \<notin> set (cache (ImageCache_set c j w t))"
    and q: "q \<in> set (cache c)" "q \<in> set (cache (ImageCache_set c j w t))"
  shows "timestamp (snd p) < timestamp (snd q) \<or>
         timestamp (snd p) = timestamp (snd q) \<and> precedes (cache c) p q"
proof -
  define ej where "ej = \<lparr>entry_value = w, timestamp = t, accessCount = 1\<rparr>"
  define c1 where "c1 = c\<lparr>cache := cache c @ [(j, ej)]\<rparr>"
  have ins: "ImageCache_set c j w t = ImageCache_cleanup c1"
    unfolding c1_def ej_def using j by (rule set_new_key_inserted)
  have c1: "cache c1 = cache c @ [(j, ej)]" by (simp add: c1_def)
  have d1: "distinct (map fst (cache c1))" using d j by (simp add: c1)
  have p1: "p \<in> set (cache c1)" using p(1) by (simp add: c1)
  have p2: "p \<notin> set (cache (ImageCache_cleanup c1))" using p(2) unfolding ins .
  have q2: "q \<in> set (cache (ImageCache_cleanup c1))" using q(2) unfolding ins .
  have qj: "q \<noteq> (j, ej)"
  proof
    assume "q = (j, ej)"
    with q(1) have "j \<in> fst ` set (cache c)" by (metis fst_conv imageI)
    with j show False by simp
  qed
  from cleanup_removal_order [OF d1 p1 p2 q2]
  have "timestamp (snd p) < timestamp (snd q) \<or>
         timestamp (snd p) = timestamp (snd q) \<and> precedes (cache c @ [(j, ej)]) p q"
    by (simp only: c1)
  then show ?thesis using precedes_butlast [OF _ qj] by blast
qed


text \<open>
  Claim C9, as amended. \<^verbatim>\<open>set(k, v')\<close> on a key that has an entry, in a cache within its
  maximum size, replaces the entry by one with the current timestamp and access count 1.
  The key keeps its position in the map and no other key is affected. The position in
  the eviction order follows from the new timestamp: at the insertion of a new key \<open>j\<close>
  that comes next, an entry that is removed is older than every entry that is kept, or as
  old and before it in the map. So if every other entry is older than the new entry of
  \<open>k\<close>, or as old and before \<open>k\<close> in the map, then \<open>k\<close> is the last of the entries present
  to be removed: it stays whenever one of them stays. The entries with the timestamp of
  \<open>k\<close> that come after \<open>k\<close> in the map stay whenever \<open>k\<close> stays.
\<close>

theorem reinsert_existing_key:
  assumes "distinct (map fst (cache c))" and "map_of (cache c) k = Some old"
    and "int (length (cache c)) \<le> \<lceil>maxSize c\<rceil>"
    and "e' = \<lparr>entry_value = v', timestamp = now, accessCount = 1\<rparr>"
    and "c' = ImageCache_set c k v' now"
  shows "map_of (cache c') k = Some e' \<and>
         map fst (cache c') = map fst (cache c) \<and>
         (\<forall>k'. k' \<noteq> k \<longrightarrow> map_of (cache c') k' = map_of (cache c) k') \<and>
         (\<forall>j w t p q. j \<notin> fst ` set (cache c') \<and>
            p \<in> set (cache c') \<and> p \<notin> set (cache (ImageCache_set c' j w t)) \<and>
            q \<in> set (cache c') \<and> q \<in> set (cache (ImageCache_set c' j w t)) \<longrightarrow>
            timestamp (snd p) < timestamp (snd q) \<or>
            timestamp (snd p) = timestamp (snd q) \<and> precedes (cache c') p q) \<and>
         ((\<forall>p\<in>set (cache c'). fst p \<noteq> k \<longrightarrow>
              timestamp (snd p) < now \<or>
              timestamp (snd p) = now \<and> precedes (cache c') p (k, e')) \<longrightarrow>
            (\<forall>j w t q. j \<notin> fst ` set (cache c') \<and> q \<in> set (cache c') \<and>
               q \<in> set (cache (ImageCache_set c' j w t)) \<longrightarrow>
               (k, e') \<in> set (cache (ImageCache_set c' j w t)))) \<and>
         (\<forall>j w t p. j \<notin> fst ` set (cache c') \<and> p \<in> set (cache c') \<and>
            timestamp (snd p) = now \<and> precedes (cache c') (k, e') p \<and>
            (k, e') \<in> set (cache (ImageCache_set c' j w t)) \<longrightarrow>
            p \<in> set (cache (ImageCache_set c' j w t)))"
proof -
  have key: "k \<in> fst ` set (cache c)"
    using assms(2) by (metis map_of_eq_None_iff option.distinct(1))
  have c': "cache c' = Map_set k e' (cache c)"
    using key assms(3)
    by (simp add: assms(4,5) ImageCache_set_def cleanup_within_ceiling length_Map_set_existing)
  have d': "distinct (map fst (cache c'))" using assms(1) by (simp add: c' distinct_Map_set)
  have dx': "distinct (cache c')" using d' by (simp add: distinct_map)
  have m: "map_of (cache c') k = Some e'" by (simp add: c' map_of_Map_set)
  have keys: "map fst (cache c') = map fst (cache c)"
    using key by (simp add: c' keys_Map_set_existing)
  have others: "map_of (cache c') k' = map_of (cache c) k'" if "k' \<noteq> k" for k'
    using that by (simp add: c' map_of_Map_set)
  have mem: "(k, e') \<in> set (cache c')" using m by (rule map_of_SomeD)
  have ts: "timestamp (snd (k, e')) = now" by (simp add: assms(4))
  have order: "timestamp (snd p) < timestamp (snd q) \<or>
            timestamp (snd p) = timestamp (snd q) \<and> precedes (cache c') p q"
    if "j \<notin> fst ` set (cache c')" "p \<in> set (cache c')"
      "p \<notin> set (cache (ImageCache_set c' j w t))"
      "q \<in> set (cache c')" "q \<in> set (cache (ImageCache_set c' j w t))" for j w t p q
    using that by (intro eviction_order [OF d'])
  have last_one: "(k, e') \<in> set (cache (ImageCache_set c' j w t))"
    if newest: "\<forall>p\<in>set (cache c'). fst p \<noteq> k \<longrightarrow>
              timestamp (snd p) < now \<or>
              timestamp (snd p) = now \<and> precedes (cache c') p (k, e')"
      and j: "j \<notin> fst ` set (cache c')" and q: "q \<in> set (cache c')"
        "q \<in> set (cache (ImageCache_set c' j w t))" for j w t q
  proof (rule ccontr)
    assume out: "(k, e') \<notin> set (cache (ImageCache_set c' j w t))"
    with q(2) have "q \<noteq> (k, e')" by auto
    with d' mem q(1) have qk: "fst q \<noteq> k" by (metis distinct_map inj_onD fst_conv)
    from order [OF j mem out q] ts
    have "now < timestamp (snd q) \<or> now = timestamp (snd q) \<and> precedes (cache c') (k, e') q"
      by simp
    moreover from newest q(1) qk
    have "timestamp (snd q) < now \<or> timestamp (snd q) = now \<and> precedes (cache c') q (k, e')"
      by blast
    ultimately have "precedes (cache c') (k, e') q \<and> precedes (cache c') q (k, e')"
      by linarith
    then show False using precedes_antisym [OF dx'] by blast
  qed
  have tie: "p \<in> set (cache (ImageCache_set c' j w t))"
    if j: "j \<notin> fst ` set (cache c')" and p: "p \<in> set (cache c')" "timestamp (snd p) = now"
        "precedes (cache c') (k, e') p"
      and kept: "(k, e') \<in> set (cache (ImageCache_set c' j w t))" for j w t p
  proof (rule ccontr)
    assume out: "p \<notin> set (cache (ImageCache_set c' j w t))"
    from order [OF j p(1) out mem kept] ts p(2)
    have "precedes (cache c') p (k, e')" by simp
    with p(3) show False using precedes_antisym [OF dx'] by blast
  qed
  have A: "\<forall>k'. k' \<noteq> k \<longrightarrow> map_of (cache c') k' = map_of (cache c) k'"
    using others by blast
  have B: "\<forall>j w t p q. j \<notin> fst ` set (cache c') \<and>
            p \<in> set (cache c') \<and> p \<notin> set (cache (ImageCache_set c' j w t)) \<and>
            q \<in> set (cache c') \<and> q \<in> set (cache (ImageCache_set c' j w t)) \<longrightarrow>
            timestamp (snd p) < timestamp (snd q) \<or>
            timestamp (snd p) = timestamp (snd q) \<and> precedes (cache c') p q"
    using order by blast
  have C: "(\<forall>p\<in>set (cache c'). fst p \<noteq> k \<longrightarrow>
              timestamp (snd p) < now \<or>
              timestamp (snd p) = now \<and> precedes (cache c') p (k, e')) \<longrightarrow>
            (\<forall>j w t q. j \<notin> fst ` set (cache c') \<and> q \<in> set (cache c') \<and>
               q \<in> set (cache (ImageCache_set c' j w t)) \<longrightarrow>
               (k, e') \<in> set (cache (ImageCache_set c' j w t)))"
    using last_one by blast
  have D: "\<forall>j w t p. j \<notin> fst ` set (cache c') \<and> p \<in> set (cache c') \<and>
            timestamp (snd p) = now \<and> precedes (cache c') (k, e') p \<and>
            (k, e') \<in> set (cache (ImageCache_set c' j w t)) \<longrightarrow>
            p \<in> set (cache (ImageCache_set c' j w t))"
    using tie by blast
  from m keys A B C D show ?thesis by (intro conjI)
qed

theorem reinsert_existing_key_witness:
  "cache (ImageCache_set
      \<lparr>maxSize = 2, ttl = 3600000,
       cache = [(''A'', \<lparr>entry_value = ''a'', timestamp = 1, accessCount = 4\<rparr>),
                (''B'', \<lparr>entry_value = ''b'', timestamp = 2, accessCount = 1\<rparr>)]\<rparr> ''A'' ''new'' 3) =
     [(''A'', \<lparr>entry_value = ''new'', timestamp = 3, accessCount = 1\<rparr>),
      (''B'', \<lparr>entry_value = ''b'', timestamp = 2, accessCount = 1\<rparr>)] \<and>
   cache (ImageCache_set (ImageCache_set
      \<lparr>maxSize = 2, ttl = 3600000,
       cache = [(''A'', \<lparr>entry_value = ''a'', timestamp = 1, accessCount = 4\<rparr>),
                (''B'', \<lparr>entry_value = ''b'', timestamp = 2, accessCount = 1\<rparr>)]\<rparr> ''A'' ''new'' 3)
      ''C'' ''c'' 3) =
     [(''A'', \<lparr>entry_value = ''new'', timestamp = 3, accessCount = 1\<rparr>),
      (''C'', \<lparr>entry_value = ''c'', timestamp = 3, accessCount = 1\<rparr>)]"
  using reinsert_existing_key [where c = "\<lparr>maxSize = 2, ttl = 3600000,
       cache = [(''A'', \<lparr>entry_value = ''a'', timestamp = 1, accessCount = 4\<rparr>),
                (''B'', \<lparr>entry_value = ''b'', timestamp = 2, accessCount = 1\<rparr>)]\<rparr>"
      and k = "''A''" and v' = "''new''" and now = 3
      and old = "\<lparr>entry_value = ''a'', timestamp = 1, accessCount = 4\<rparr>"
      and e' = "\<lparr>entry_value = ''new'', timestamp = 3, accessCount = 1\<rparr>"
      and c' = "ImageCache_set \<lparr>maxSize = 2, ttl = 3600000,
       cache = [(''A'', \<lparr>entry_value = ''a'', timestamp = 1, accessCount = 4\<rparr>),
                (''B'', \<lparr>entry_value = ''b'', timestamp = 2, accessCount = 1\<rparr>)]\<rparr> ''A'' ''new'' 3"]
  by (simp add: ImageCache_set_def ImageCache_cleanup_def Map_delete_def Let_def)

text \<open>
  Claim C9 as stated fails when the timestamps tie. \<open>A\<close> is inserted at 1 and \<open>B\<close> at 2;
  \<open>A\<close> is inserted again at 2, in the same millisecond as \<open>B\<close>. It keeps its position
  before \<open>B\<close> in the map, the stable sort leaves it before \<open>B\<close>, and the overflow caused by
  \<open>C\<close> evicts \<open>A\<close>, the key inserted last, and keeps \<open>B\<close>.
\<close>

theorem reinsert_same_millisecond_evicted_first:
  "cache (ImageCache_set (ImageCache_set (ImageCache_set (ImageCache_set
      (ImageCache_new \<lparr>opt_maxSize = Some 2, opt_ttl = None\<rparr>)
        ''A'' ''a'' 1) ''B'' ''b'' 2) ''A'' ''new'' 2) ''C'' ''c'' 3) =
     [(''B'', \<lparr>entry_value = ''b'', timestamp = 2, accessCount = 1\<rparr>),
      (''C'', \<lparr>entry_value = ''c'', timestamp = 3, accessCount = 1\<rparr>)]"
  by (simp add: ImageCache_set_def ImageCache_new_def ImageCache_cleanup_def
      or_default_def Map_delete_def Let_def)

text \<open>
  The amended claim speaks of the insertion that comes next. A write in between gives
  another entry a later timestamp: \<open>A\<close> is inserted again at 3, \<open>B\<close> again at 4, and the
  overflow caused by \<open>C\<close> at 5 evicts \<open>A\<close>.
\<close>

lemma reinsert_then_other_write:
  "cache (ImageCache_set (ImageCache_set (ImageCache_set (ImageCache_set (ImageCache_set
      (ImageCache_new \<lparr>opt_maxSize = Some 2, opt_ttl = None\<rparr>)
        ''A'' ''a'' 1) ''B'' ''b'' 2) ''A'' ''new'' 3) ''B'' ''again'' 4) ''C'' ''c'' 5) =
     [(''B'', \<lparr>entry_value = ''again'', timestamp = 4, accessCount = 1\<rparr>),
      (''C'', \<lparr>entry_value = ''c'', timestamp = 5, accessCount = 1\<rparr>)]"
  by (simp add: ImageCache_set_def ImageCache_new_def ImageCache_cleanup_def
      or_default_def Map_delete_def Let_def)

subsection \<open>Reading back what was just inserted\<close>






text \<open>
  The same happens when the clock is set back between two insertions: the new entry is
  the oldest one and is evicted at once.
\<close>

lemma set_then_get_clock_set_back:
  "fst (ImageCache_get (ImageCache_set (ImageCache_set
        (ImageCache_new \<lparr>opt_maxSize = Some 1, opt_ttl = None\<rparr>) ''A'' ''a'' 100) ''B'' ''b'' 50)
      ''B'' 50) = None"
  by (simp add: ImageCache_get_def ImageCache_set_def ImageCache_new_def ImageCache_cleanup_def
      or_default_def Map_delete_def Let_def)

section \<open>Properties of the cache key\<close>










lemmas js_eval = createKey_def object_text_def array_text_def own_property_order_def is_index_def
  array_index_def is_digit_def digits_value_def index_value_def quote_def escape_def



text \<open>
  The converse of the amended claim is not claimed, and does not hold: objects that differ
  are given the same text when they differ in a property that is left out, in a value
  that is printed as \<^verbatim>\<open>null\<close>, or in the order in which array indices were created.
\<close>

lemma stringify_identifies:
  "stringify Number_toString (JObj [(''seed'', JUndefined)]) = stringify Number_toString (JObj [])"
  "stringify Number_toString (JObj [(''onDone'', JFunction)]) = stringify Number_toString (JObj [])"
  "stringify Number_toString (JObj [(''seed'', JNonFinite)]) = stringify Number_toString (JObj [(''seed'', JNull)])"
  "stringify Number_toString (JArr [JUndefined]) = stringify Number_toString (JArr [JNull])"
  "stringify Number_toString (JObj [(''1'', JNull), (''0'', JNull)]) =
     stringify Number_toString (JObj [(''0'', JNull), (''1'', JNull)])"
  by (simp_all add: js_eval)

end
